theory Spec2Isabelle
  imports Main
begin

section \<open>Python primitives used by the two analysers\<close>

text \<open>
  A Python \<open>str\<close> is modelled as a \<open>string\<close> whose characters are read as code points
  below 256; every literal of the sources and of the examples is ASCII. The character
  classes below are the restrictions of Python's classes to that range.
\<close>

datatype py_error = IndexError

definition re_digit :: "char \<Rightarrow> bool" where
  \<comment> \<open>\<open>\d\<close> of a \<open>str\<close> pattern: the decimal digits.\<close>
  "re_digit c = (48 \<le> (of_char c :: nat) \<and> (of_char c :: nat) \<le> 57)"

definition re_upper :: "char \<Rightarrow> bool" where
  \<comment> \<open>the class \<open>[A-Z]\<close>\<close>
  "re_upper c = (65 \<le> (of_char c :: nat) \<and> (of_char c :: nat) \<le> 90)"

definition char_isdigit :: "char \<Rightarrow> bool" where
  \<comment> \<open>\<open>str.isdigit\<close> on one character: the decimal digits and the superscripts
      two, three and one (code points 178, 179, 185).\<close>
  "char_isdigit c = (re_digit c \<or> (of_char c :: nat) \<in> {178, 179, 185})"

definition char_isspace :: "char \<Rightarrow> bool" where
  \<comment> \<open>the separators of \<open>str.split()\<close>: code points 9-13, 28-32, 133 and 160\<close>
  "char_isspace c = (let k = (of_char c :: nat) in
     (9 \<le> k \<and> k \<le> 13) \<or> (28 \<le> k \<and> k \<le> 32) \<or> k = 133 \<or> k = 160)"

definition str_isdigit :: "string \<Rightarrow> bool" where
  \<comment> \<open>\<open>s.isdigit()\<close>: false on the empty string\<close>
  "str_isdigit s = (s \<noteq> [] \<and> list_all char_isdigit s)"

definition str_remove :: "char \<Rightarrow> string \<Rightarrow> string" where
  \<comment> \<open>\<open>s.replace(c, '')\<close> for a one-character \<open>c\<close>\<close>
  "str_remove c s = filter (\<lambda>x. x \<noteq> c) s"

fun split_from :: "string \<Rightarrow> string \<Rightarrow> string list" where
  "split_from cur [] = (if cur = [] then [] else [cur])"
| "split_from cur (c # cs) =
     (if char_isspace c then (if cur = [] then split_from [] cs else cur # split_from [] cs)
      else split_from (cur @ [c]) cs)"

definition str_split :: "string \<Rightarrow> string list" where
  \<comment> \<open>\<open>s.split()\<close>: the maximal runs of non-whitespace characters\<close>
  "str_split s = split_from [] s"

subsection \<open>Double-precision products with 0.7 and 0.3\<close>

text \<open>
  The thresholds are computed as \<open>len(...) * 0.7\<close> and \<open>len(...) * 0.3\<close>: the length is
  converted to a double, multiplied by the double nearest to the constant, and the product is
  rounded to 53 significant bits, ties to even. The count on the other side of the comparison
  is an \<open>int\<close>, which Python compares with a double exactly. The doubles are
  \<open>0.7 = 6305039478318694 / 2^53\<close> and \<open>0.3 = 5404319552844595 / 2^54\<close>; a product is
  represented by its numerator over the same power of two.
\<close>

function bit_length :: "int \<Rightarrow> nat" where
  \<comment> \<open>\<open>int.bit_length()\<close> of a non-negative integer\<close>
  "bit_length p = (if p \<le> 0 then 0 else Suc (bit_length (p div 2)))"
  by pat_completeness auto
termination
  by (relation "measure nat") auto

declare bit_length.simps [simp del]

definition round53 :: "int \<Rightarrow> int" where
  \<comment> \<open>round a non-negative integer to 53 significant bits, ties to even\<close>
  "round53 p =
     (let s = bit_length p - 53 in
      if s = 0 then p
      else let q = p div 2 ^ s; r = p mod 2 ^ s; h = 2 ^ (s - 1) in
        (if r < h then q else if h < r then q + 1 else if even q then q else q + 1) * 2 ^ s)"

definition float_of_len :: "nat \<Rightarrow> int" where
  \<comment> \<open>\<open>int\<close> to \<open>float\<close>; exact below \<open>2^53\<close>\<close>
  "float_of_len n = round53 (int n)"

definition times_0_7 :: "nat \<Rightarrow> int" where
  \<comment> \<open>the double \<open>n * 0.7\<close>, in units of \<open>2^-53\<close>\<close>
  "times_0_7 n = round53 (float_of_len n * 6305039478318694)"

definition times_0_3 :: "nat \<Rightarrow> int" where
  \<comment> \<open>the double \<open>n * 0.3\<close>, in units of \<open>2^-54\<close>\<close>
  "times_0_3 n = round53 (float_of_len n * 5404319552844595)"

definition ge_0_7 :: "nat \<Rightarrow> nat \<Rightarrow> bool" where
  \<comment> \<open>\<open>m >= n * 0.7\<close>\<close>
  "ge_0_7 m n = (times_0_7 n \<le> int m * 2 ^ 53)"

definition gt_0_7 :: "nat \<Rightarrow> nat \<Rightarrow> bool" where
  \<comment> \<open>\<open>m > n * 0.7\<close>\<close>
  "gt_0_7 m n = (times_0_7 n < int m * 2 ^ 53)"

definition gt_0_3 :: "nat \<Rightarrow> nat \<Rightarrow> bool" where
  \<comment> \<open>\<open>m > n * 0.3\<close>\<close>
  "gt_0_3 m n = (times_0_3 n < int m * 2 ^ 54)"

section \<open>The sequence-pattern detector (\<open>extract_sheet_structure.py\<close>)\<close>

subsection \<open>\<open>is_date\<close>\<close>

datatype re_item = Digits nat nat | Lit char

fun re_fullmatch :: "re_item list \<Rightarrow> string \<Rightarrow> bool" where
  \<comment> \<open>\<open>re.match('^...$', s)\<close>: \<open>$\<close> also matches before a final newline\<close>
  "re_fullmatch [] s = (s = [] \<or> s = [CHR 0x0A])"
| "re_fullmatch (Lit c # p) s = (case s of [] \<Rightarrow> False | x # r \<Rightarrow> x = c \<and> re_fullmatch p r)"
| "re_fullmatch (Digits lo hi # p) s =
     list_ex (\<lambda>k. k \<le> length s \<and> list_all re_digit (take k s) \<and> re_fullmatch p (drop k s))
       [lo..<Suc hi]"

definition date_patterns :: "re_item list list" where
  "date_patterns =
     [[Digits 1 2, Lit CHR ''/'', Digits 1 2, Lit CHR ''/'', Digits 4 4],
      [Digits 4 4, Lit CHR ''-'', Digits 2 2, Lit CHR ''-'', Digits 2 2],
      [Digits 1 2, Lit CHR ''-'', Digits 1 2, Lit CHR ''-'', Digits 4 4]]"

definition is_date :: "string \<Rightarrow> bool" where
  "is_date v = (if v = [] then False else list_ex (\<lambda>p. re_fullmatch p v) date_patterns)"

subsection \<open>\<open>detect_pattern\<close>\<close>

record Break =
  block_index :: nat
  position :: nat
  expected_template :: "string list"
  actual_values :: "string list"

text \<open>
  The result dictionary, one constructor per value of its \<open>type\<close> key. The key \<open>breaks\<close>
  of a \<open>repeating\<close> result is set only under \<open>if breaks:\<close>; an absent key is \<open>None\<close>.
\<close>

datatype PatternResult =
    Empty
  | AllEmpty (count: nat)
  | Single (val: string)
  | Uniform (val: string) (count: nat)
  | Repeating (block_size: nat) (template: "string list") (repeat_count: nat)
      (total_items: nat) (sample_first_block: "string list") (breaks: "Break list option")
  | DateSequence (count: nat) (first: string) (last_value: string) (sample: "string list")
  | VariedWithPrefix (common_prefix: string) (prefix_count: nat) (total: nat)
      (sample: "string list")
  | ListOf (vals: "string list") (total: nat)
  | Varied (unique_count: nat) (total: nat) (sample: "string list")

fun result_type :: "PatternResult \<Rightarrow> string" where
  "result_type Empty = ''empty''"
| "result_type (AllEmpty _) = ''all_empty''"
| "result_type (Single _) = ''single''"
| "result_type (Uniform _ _) = ''uniform''"
| "result_type (Repeating _ _ _ _ _ _) = ''repeating''"
| "result_type (DateSequence _ _ _ _) = ''date_sequence''"
| "result_type (VariedWithPrefix _ _ _ _) = ''varied_with_prefix''"
| "result_type (ListOf _ _) = ''list''"
| "result_type (Varied _ _ _) = ''varied''"

definition truthy :: "string option \<Rightarrow> bool" where
  "truthy v = (case v of None \<Rightarrow> False | Some s \<Rightarrow> s \<noteq> [])"

definition non_empty_of :: "string option list \<Rightarrow> string list" where
  \<comment> \<open>\<open>[v for v in values if v]\<close>\<close>
  "non_empty_of values = map the (filter truthy values)"

definition template_elem :: "string \<Rightarrow> string" where
  "template_elem v =
     (if is_date v then ''<date>''
      else if v \<noteq> [] \<and> str_isdigit (str_remove CHR ''-'' (str_remove CHR ''.'' v))
        then ''<number>''
      else v)"

definition range_step :: "nat \<Rightarrow> nat \<Rightarrow> nat list" where
  \<comment> \<open>\<open>range(0, n, b)\<close> for \<open>b \<ge> 1\<close>\<close>
  "range_step n b = map (\<lambda>k. k * b) [0..<(n + b - 1) div b]"

definition blocks_of :: "nat \<Rightarrow> string list \<Rightarrow> string list list" where
  "blocks_of b ne =
     filter (\<lambda>block. length block = b) (map (\<lambda>i. take b (drop i ne)) (range_step (length ne) b))"

definition check_block ::
  "nat \<Rightarrow> string list \<Rightarrow> nat \<times> string list \<Rightarrow> nat \<times> Break list \<Rightarrow> nat \<times> Break list" where
  \<comment> \<open>one pass of the loop over \<open>enumerate(blocks[1:], start=1)\<close>\<close>
  "check_block b tmpl ib st =
     (case ib of (idx, block) \<Rightarrow> case st of (matching_blocks, brks) \<Rightarrow>
        if map template_elem block = tmpl then (matching_blocks + 1, brks)
        else (matching_blocks,
              brks @ [\<lparr>block_index = idx, position = idx * b,
                       expected_template = tmpl, actual_values = block\<rparr>]))"

definition try_block_size :: "string list \<Rightarrow> nat \<Rightarrow> PatternResult option" where
  \<comment> \<open>the body of the loop over \<open>block_size\<close>; \<open>None\<close> is falling through to the next size\<close>
  "try_block_size ne b =
     (let blocks = blocks_of b ne in
      if length blocks < 2 then None
      else
        let tmpl = map template_elem (blocks ! 0);
            st = fold (check_block b tmpl) (enumerate 1 (drop 1 blocks)) (1, [])
        in case st of (matching_blocks, brks) \<Rightarrow>
          if ge_0_7 matching_blocks (length blocks)
          then Some (Repeating b tmpl (length blocks) (length ne) (blocks ! 0)
                       (if brks \<noteq> [] then Some brks else None))
          else None)"

fun first_result :: "('a \<Rightarrow> 'b option) \<Rightarrow> 'a list \<Rightarrow> 'b option" where
  \<comment> \<open>a \<open>for\<close> loop that returns from its first successful pass\<close>
  "first_result f [] = None"
| "first_result f (x # xs) = (case f x of Some r \<Rightarrow> Some r | None \<Rightarrow> first_result f xs)"

definition find_repeating :: "string list \<Rightarrow> PatternResult option" where
  \<comment> \<open>\<open>for block_size in range(1, min(11, len(non_empty) // 2 + 1))\<close>\<close>
  "find_repeating ne = first_result (try_block_size ne) [1..<min 11 (length ne div 2 + 1)]"

definition prefix_of :: "string \<Rightarrow> py_error + string" where
  "prefix_of v =
     (if CHR '' '' \<in> set v
      then (case str_split v of [] \<Rightarrow> Inl IndexError | t # _ \<Rightarrow> Inr t)
      else Inr (take (min 5 (length v)) v))"

fun dict_get :: "('k \<times> 'v) list \<Rightarrow> 'k \<Rightarrow> 'v \<Rightarrow> 'v" where
  "dict_get [] k d = d"
| "dict_get ((k', v) # kvs) k d = (if k' = k then v else dict_get kvs k d)"

fun dict_set :: "('k \<times> 'v) list \<Rightarrow> 'k \<Rightarrow> 'v \<Rightarrow> ('k \<times> 'v) list" where
  \<comment> \<open>a dictionary keeps insertion order; assigning to a present key keeps its place\<close>
  "dict_set [] k v = [(k, v)]"
| "dict_set ((k', v') # kvs) k v = (if k' = k then (k, v) # kvs else (k', v') # dict_set kvs k v)"

fun count_prefixes :: "(string \<times> nat) list \<Rightarrow> string list \<Rightarrow> py_error + (string \<times> nat) list" where
  "count_prefixes prefixes [] = Inr prefixes"
| "count_prefixes prefixes (v # vs) =
     (case prefix_of v of
        Inl e \<Rightarrow> Inl e
      | Inr p \<Rightarrow> count_prefixes (dict_set prefixes p (dict_get prefixes p 0 + 1)) vs)"

fun max_by_count :: "(string \<times> nat) \<Rightarrow> (string \<times> nat) list \<Rightarrow> (string \<times> nat)" where
  \<comment> \<open>\<open>max(..., key=lambda x: x[1])\<close>: the first item with the greatest count\<close>
  "max_by_count best [] = best"
| "max_by_count best (x # xs) = max_by_count (if snd best < snd x then x else best) xs"

definition dominant_of :: "(string \<times> nat) list \<Rightarrow> (string \<times> nat) option" where
  "dominant_of prefixes = (case prefixes of [] \<Rightarrow> None | x # xs \<Rightarrow> Some (max_by_count x xs))"

definition dict_fromkeys :: "string list \<Rightarrow> string list" where
  \<comment> \<open>\<open>list(dict.fromkeys(xs))\<close>: first occurrences, in order\<close>
  "dict_fromkeys xs = fold (\<lambda>x acc. if x \<in> set acc then acc else acc @ [x]) xs []"

definition list_or_varied :: "string option list \<Rightarrow> string list \<Rightarrow> PatternResult" where
  "list_or_varied values ne =
     (let unique = dict_fromkeys ne in
      if length unique \<le> 20 then ListOf unique (length values)
      else Varied (length unique) (length values) (take 10 ne))"

definition prefix_stage :: "string option list \<Rightarrow> string list \<Rightarrow> py_error + PatternResult" where
  "prefix_stage values ne =
     (if 5 < length ne then
        (case count_prefixes [] ne of
           Inl e \<Rightarrow> Inl e
         | Inr prefixes \<Rightarrow>
            (case dominant_of prefixes of
               Some dominant \<Rightarrow>
                 if gt_0_3 (snd dominant) (length ne)
                 then Inr (VariedWithPrefix (fst dominant) (snd dominant) (length ne) (take 5 ne))
                 else Inr (list_or_varied values ne)
             | None \<Rightarrow> Inr (list_or_varied values ne)))
      else Inr (list_or_varied values ne))"

definition date_stage :: "string option list \<Rightarrow> string list \<Rightarrow> py_error + PatternResult" where
  "date_stage values ne =
     (if 3 \<le> length ne \<and> gt_0_7 (length (filter is_date ne)) (length ne)
      then Inr (DateSequence (length ne) (ne ! 0) (last ne) (take 5 ne))
      else prefix_stage values ne)"

definition detect_pattern :: "string option list \<Rightarrow> py_error + PatternResult" where
  "detect_pattern values =
     (if values = [] then Inr Empty
      else
        let ne = non_empty_of values in
        if length ne = 0 then Inr (AllEmpty (length values))
        else if length ne = 1 then Inr (Single (ne ! 0))
        else if card (set ne) = 1 then Inr (Uniform (ne ! 0) (length values))
        else (case find_repeating ne of
                Some r \<Rightarrow> Inr r
              | None \<Rightarrow> date_stage values ne))"

definition returned_type :: "py_error + PatternResult \<Rightarrow> string option" where
  \<comment> \<open>the \<open>type\<close> key of the returned dictionary; \<open>None\<close> when the call raises\<close>
  "returned_type r = (case r of Inl _ \<Rightarrow> None | Inr p \<Rightarrow> Some (result_type p))"

definition returned_breaks :: "py_error + PatternResult \<Rightarrow> Break list option" where
  \<comment> \<open>the \<open>breaks\<close> key of the returned dictionary, when it is there\<close>
  "returned_breaks r = (case r of Inr (Repeating _ _ _ _ _ brks) \<Rightarrow> brks | _ \<Rightarrow> None)"

section \<open>The formula-range analyser (\<open>analyze_sheet_structure.py\<close>)\<close>

subsection \<open>\<open>normalize_formula\<close>\<close>

definition expect_dollar :: "bool \<Rightarrow> string \<Rightarrow> string option" where
  \<comment> \<open>an optional dollar sign of the pattern: the rest of the text after it\<close>
  "expect_dollar want s =
     (if want then (case s of [] \<Rightarrow> None | c # r \<Rightarrow> if c = CHR ''$'' then Some r else None)
      else Some s)"

definition ref_match :: "bool \<Rightarrow> bool \<Rightarrow> string \<Rightarrow> nat option" where
  \<comment> \<open>The length of the match of a cell reference (an optional dollar sign, \<open>[A-Z]+\<close>, an
      optional dollar sign, \<open>\d+\<close>) at the start of the text. Both repetitions are greedy, and
      giving a letter back never helps, since what follows the letters is a dollar sign or a
      digit.\<close>
  "ref_match col_abs row_abs s =
     (case expect_dollar col_abs s of
        None \<Rightarrow> None
      | Some s1 \<Rightarrow>
          let letters = takeWhile re_upper s1 in
          if letters = [] then None
          else (case expect_dollar row_abs (dropWhile re_upper s1) of
                  None \<Rightarrow> None
                | Some s3 \<Rightarrow>
                    let digits = takeWhile re_digit s3 in
                    if digits = [] then None
                    else Some ((if col_abs then 1 else 0) + length letters
                               + (if row_abs then 1 else 0) + length digits)))"

fun re_sub :: "(string \<Rightarrow> nat option) \<Rightarrow> string \<Rightarrow> string \<Rightarrow> string" where
  \<comment> \<open>\<open>re.sub\<close> for a pattern without empty matches: the leftmost matches, left to right\<close>
  "re_sub m repl [] = []"
| "re_sub m repl (c # cs) =
     (case m (c # cs) of
        None \<Rightarrow> c # re_sub m repl cs
      | Some n \<Rightarrow> repl @ re_sub m repl (drop (n - 1) cs))"

definition sub_abs :: "string \<Rightarrow> string" where
  "sub_abs = re_sub (ref_match True True) ''{ABS}''"

definition sub_col_abs :: "string \<Rightarrow> string" where
  "sub_col_abs = re_sub (ref_match True False) ''{COL_ABS}''"

definition sub_row_abs :: "string \<Rightarrow> string" where
  "sub_row_abs = re_sub (ref_match False True) ''{ROW_ABS}''"

definition sub_rel :: "string \<Rightarrow> string" where
  "sub_rel = re_sub (ref_match False False) ''{REL}''"

definition normalize_formula :: "string \<Rightarrow> string" where
  "normalize_formula formula =
     (if formula = [] then []
      else sub_rel (sub_row_abs (sub_col_abs (sub_abs formula))))"

subsection \<open>\<open>analyze_formula_ranges\<close>\<close>

text \<open>
  Of a cell only the keys read by \<open>extract_formula\<close> are modelled, of a row only its
  \<open>values\<close> key. Row and column indices are natural numbers: the callers pass
  \<open>range(max_cols)\<close> and a non-negative \<open>start_row\<close>.
\<close>

record ExtendedValue =
  formulaValue :: "string option"

record CellData =
  userEnteredValue :: "ExtendedValue option"

record RowData =
  row_values :: "CellData list option"

record FormulaRange =
  start_row :: nat
  end_row :: nat
  pattern :: string
  first_formula :: string
  formula_count :: nat
  formulas :: "string list"

definition extract_formula :: "CellData \<Rightarrow> string option" where
  "extract_formula cell_data =
     (case userEnteredValue cell_data of None \<Rightarrow> None | Some user_value \<Rightarrow> formulaValue user_value)"

definition new_range :: "nat \<Rightarrow> string \<Rightarrow> FormulaRange" where
  "new_range row_idx formula =
     \<lparr>start_row = row_idx, end_row = row_idx, pattern = normalize_formula formula,
      first_formula = formula, formula_count = 1, formulas = [formula]\<rparr>"

definition extend_range :: "FormulaRange \<Rightarrow> nat \<Rightarrow> string \<Rightarrow> FormulaRange" where
  "extend_range cur row_idx formula =
     cur\<lparr>end_row := row_idx, formula_count := formula_count cur + 1,
         formulas := (if length (formulas cur) < 3 then formulas cur @ [formula]
                      else formulas cur)\<rparr>"

type_synonym scan_state = "FormulaRange list \<times> FormulaRange option"

definition close_range :: "scan_state \<Rightarrow> scan_state" where
  "close_range st =
     (case st of (ranges, current_range) \<Rightarrow>
        (case current_range of None \<Rightarrow> (ranges, None) | Some cur \<Rightarrow> (ranges @ [cur], None)))"

definition formula_step :: "nat \<Rightarrow> string \<Rightarrow> scan_state \<Rightarrow> scan_state" where
  \<comment> \<open>the branch \<open>if formula:\<close>\<close>
  "formula_step row_idx formula st =
     (case st of (ranges, current_range) \<Rightarrow>
        (case current_range of
           None \<Rightarrow> (ranges, Some (new_range row_idx formula))
         | Some cur \<Rightarrow>
             if pattern cur = normalize_formula formula
             then (ranges, Some (extend_range cur row_idx formula))
             else (ranges @ [cur], Some (new_range row_idx formula))))"

definition scan_row :: "RowData list \<Rightarrow> nat \<Rightarrow> nat \<Rightarrow> scan_state \<Rightarrow> scan_state" where
  "scan_row row_data col_idx row_idx st =
     (let row = row_data ! row_idx in
      case row_values row of
        None \<Rightarrow> close_range st
      | Some vs \<Rightarrow>
          if col_idx < length vs then
            (let formula = extract_formula (vs ! col_idx) in
             if truthy formula then formula_step row_idx (the formula) st
             else close_range st)
          else close_range st)"

definition analyze_formula_ranges :: "RowData list \<Rightarrow> nat \<Rightarrow> nat \<Rightarrow> FormulaRange list" where
  "analyze_formula_ranges row_data col_idx start_row_arg =
     fst (close_range
            (fold (scan_row row_data col_idx) [start_row_arg..<length row_data] ([], None)))"

subsection \<open>The formula flow of \<open>analyze_column_types\<close>\<close>







definition formula_cell :: "string \<Rightarrow> RowData" where
  \<comment> \<open>a row of one cell that holds the formula\<close>
  "formula_cell f = \<lparr>row_values = Some [\<lparr>userEnteredValue = Some \<lparr>formulaValue = Some f\<rparr>\<rparr>]\<rparr>"

definition plain_cell :: RowData where
  \<comment> \<open>a row of one cell without a formula\<close>
  "plain_cell = \<lparr>row_values = Some [\<lparr>userEnteredValue = None\<rparr>]\<rparr>"

section \<open>The specification's reading of the two analysers\<close>

subsection \<open>The repeating-block rule, as the specification words it\<close>

text \<open>
  The definitions of this subsection follow the words of the specification and use nothing
  of the detector's code: the non-blank values, the date-shape test (\<open>D/D/YYYY\<close>,
  \<open>YYYY-MM-DD\<close>, \<open>D-D-YYYY\<close> with a day and a month of one or two digits and a year of
  four), the numeric-shape test, the template of a chunk, the complete chunks and the
  smallest block size of which 70% of the chunks match.
\<close>

fun spec_non_blank :: "string option list \<Rightarrow> string list" where
  "spec_non_blank [] = []"
| "spec_non_blank (None # vs) = spec_non_blank vs"
| "spec_non_blank (Some s # vs) = (if s = [] then spec_non_blank vs else s # spec_non_blank vs)"

definition spec_digit :: "char \<Rightarrow> bool" where
  "spec_digit c = (c \<in> set ''0123456789'')"

fun fields_from :: "char \<Rightarrow> string \<Rightarrow> string \<Rightarrow> string list" where
  "fields_from sep cur [] = [cur]"
| "fields_from sep cur (c # cs) =
     (if c = sep then cur # fields_from sep [] cs else fields_from sep (cur @ [c]) cs)"

definition spec_fields :: "char \<Rightarrow> string \<Rightarrow> string list" where
  \<comment> \<open>the parts of a text between the occurrences of the separator\<close>
  "spec_fields sep v = fields_from sep [] v"

definition digit_field :: "nat \<Rightarrow> nat \<Rightarrow> string \<Rightarrow> bool" where
  \<comment> \<open>from \<open>lo\<close> to \<open>hi\<close> characters, all digits\<close>
  "digit_field lo hi s = (lo \<le> length s \<and> length s \<le> hi \<and> list_all spec_digit s)"

definition spec_date_shaped :: "string \<Rightarrow> bool" where
  "spec_date_shaped v =
     ((case spec_fields CHR ''/'' v of
         [d, m, y] \<Rightarrow> digit_field 1 2 d \<and> digit_field 1 2 m \<and> digit_field 4 4 y
       | _ \<Rightarrow> False)
      \<or> (case spec_fields CHR ''-'' v of
            [a, b, c] \<Rightarrow>
              (digit_field 4 4 a \<and> digit_field 2 2 b \<and> digit_field 2 2 c)
              \<or> (digit_field 1 2 a \<and> digit_field 1 2 b \<and> digit_field 4 4 c)
          | _ \<Rightarrow> False))"

definition spec_numeric_shaped :: "string \<Rightarrow> bool" where
  \<comment> \<open>after removing every \<open>.\<close> and \<open>-\<close>, the rest is non-empty and all digits\<close>
  "spec_numeric_shaped v =
     (let r = filter (\<lambda>c. c \<noteq> CHR ''.'' \<and> c \<noteq> CHR ''-'') v in r \<noteq> [] \<and> list_all spec_digit r)"

definition spec_template :: "string list \<Rightarrow> string list" where
  "spec_template chunk =
     map (\<lambda>v. if spec_date_shaped v then ''<date>''
               else if spec_numeric_shaped v then ''<number>'' else v) chunk"

definition spec_chunks :: "nat \<Rightarrow> string list \<Rightarrow> string list list" where
  \<comment> \<open>the complete consecutive chunks of size \<open>b\<close>; a trailing partial chunk is dropped\<close>
  "spec_chunks b xs = map (\<lambda>k. take b (drop (k * b) xs)) [0..<length xs div b]"

definition spec_matching :: "nat \<Rightarrow> string list \<Rightarrow> nat" where
  \<comment> \<open>the number of chunks whose template is the first chunk's\<close>
  "spec_matching b xs =
     length (filter (\<lambda>c. spec_template c = spec_template (hd (spec_chunks b xs)))
               (spec_chunks b xs))"

definition spec_accepts :: "nat \<Rightarrow> string list \<Rightarrow> bool" where
  \<comment> \<open>the block size has two complete chunks, and 70% of the chunks match\<close>
  "spec_accepts b xs =
     (2 \<le> length (spec_chunks b xs)
      \<and> 7 * length (spec_chunks b xs) \<le> 10 * spec_matching b xs)"

definition spec_search :: "string list \<Rightarrow> nat option" where
  \<comment> \<open>the smallest accepted block size from 1 to \<open>min(10, floor(n / 2))\<close>, if there is one\<close>
  "spec_search xs = find (\<lambda>b. spec_accepts b xs) [1..<Suc (min 10 (length xs div 2))]"

definition spec_breaks :: "nat \<Rightarrow> string list \<Rightarrow> Break list" where
  \<comment> \<open>one entry for every chunk that does not match, in order\<close>
  "spec_breaks b xs =
     map (\<lambda>k. \<lparr>block_index = k, position = k * b,
                expected_template = spec_template (hd (spec_chunks b xs)),
                actual_values = spec_chunks b xs ! k\<rparr>)
       (filter (\<lambda>k. spec_template (spec_chunks b xs ! k) \<noteq> spec_template (hd (spec_chunks b xs)))
          [0..<length (spec_chunks b xs)])"

definition spec_repeating :: "string option list \<Rightarrow> PatternResult option" where
  \<comment> \<open>the repeating pattern that the rule prescribes, \<open>None\<close> when it prescribes none\<close>
  "spec_repeating vs =
     (let xs = spec_non_blank vs in
      case spec_search xs of
        None \<Rightarrow> None
      | Some b \<Rightarrow>
          Some (Repeating b (spec_template (hd (spec_chunks b xs))) (length (spec_chunks b xs))
                  (length xs) (hd (spec_chunks b xs))
                  (if spec_breaks b xs = [] then None else Some (spec_breaks b xs))))"

subsection \<open>The loop over the blocks in closed form\<close>

text \<open>
  What one pass of the loop over the block sizes computes, written without the loop: the
  number of blocks whose template (by the detector's own \<open>template_elem\<close>) is the first
  block's, and the break entries.
\<close>

definition matching_count :: "nat \<Rightarrow> string list \<Rightarrow> nat" where
  "matching_count b xs =
     length (filter (\<lambda>c. map template_elem c = map template_elem (hd (spec_chunks b xs)))
               (spec_chunks b xs))"

definition break_entries :: "nat \<Rightarrow> string list \<Rightarrow> Break list" where
  "break_entries b xs =
     map (\<lambda>k. \<lparr>block_index = k, position = k * b,
                expected_template = map template_elem (hd (spec_chunks b xs)),
                actual_values = spec_chunks b xs ! k\<rparr>)
       (filter (\<lambda>k. map template_elem (spec_chunks b xs ! k)
                     \<noteq> map template_elem (hd (spec_chunks b xs)))
          [0..<length (spec_chunks b xs)])"

definition breaks_list :: "Break list option \<Rightarrow> Break list" where
  \<comment> \<open>the recorded entries, the key being there or not\<close>
  "breaks_list brks = (case brks of None \<Rightarrow> [] | Some l \<Rightarrow> l)"

subsection \<open>Maximal runs of one signature\<close>

definition row_formula :: "RowData list \<Rightarrow> nat \<Rightarrow> nat \<Rightarrow> string option" where
  \<comment> \<open>the formula of the row's cell in the column; \<open>None\<close> for a row without such a cell
      and for a cell without a formula\<close>
  "row_formula row_data col_idx row_idx =
     (case row_values (row_data ! row_idx) of
        None \<Rightarrow> None
      | Some vs \<Rightarrow>
          if col_idx < length vs \<and> truthy (extract_formula (vs ! col_idx))
          then extract_formula (vs ! col_idx) else None)"

definition same_signature :: "string \<Rightarrow> string option \<Rightarrow> bool" where
  "same_signature f g = (case g of None \<Rightarrow> False | Some f' \<Rightarrow> normalize_formula f' = normalize_formula f)"

function maximal_runs :: "nat \<Rightarrow> string option list \<Rightarrow> FormulaRange list" where
  \<comment> \<open>the rows, given from row \<open>i\<close> on by their formulas, cut into the longest stretches of
      consecutive formulas with one signature\<close>
  "maximal_runs i [] = []"
| "maximal_runs i (None # fs) = maximal_runs (Suc i) fs"
| "maximal_runs i (Some f # fs) =
     \<lparr>start_row = i, end_row = i + length (takeWhile (same_signature f) fs),
      pattern = normalize_formula f, first_formula = f,
      formula_count = Suc (length (takeWhile (same_signature f) fs)),
      formulas = take 3 (f # map the (takeWhile (same_signature f) fs))\<rparr>
     # maximal_runs (Suc (i + length (takeWhile (same_signature f) fs)))
         (dropWhile (same_signature f) fs)"
  by pat_completeness auto
termination
  by (relation "measure (\<lambda>(i, fs). length fs)") (auto simp: length_dropWhile_le less_Suc_eq_le)

subsection \<open>Traces of a cell reference in a text\<close>

text \<open>
  Every match of one of the four reference patterns holds an upper-case letter directly
  before a digit, or directly before a dollar sign and a digit.
\<close>

fun ref_pair :: "string \<Rightarrow> bool" where
  "ref_pair (a # b # r) = ((re_upper a \<and> re_digit b) \<or> ref_pair (b # r))"
| "ref_pair _ = False"

fun ref_triple :: "string \<Rightarrow> bool" where
  "ref_triple (a # b # c # r) = ((re_upper a \<and> b = CHR ''$'' \<and> re_digit c) \<or> ref_triple (b # c # r))"
| "ref_triple _ = False"

subsection \<open>The scan over the formulas of the rows\<close>

text \<open>
  The scan of \<open>analyze_formula_ranges\<close> read off the list of the rows' formulas, and the
  repeated extension of an open range.
\<close>

fun scan_formulas :: "nat \<Rightarrow> string option list \<Rightarrow> scan_state \<Rightarrow> scan_state" where
  "scan_formulas i [] st = st"
| "scan_formulas i (g # gs) st =
     scan_formulas (Suc i) gs
       (case g of None \<Rightarrow> close_range st | Some f \<Rightarrow> formula_step i f st)"

fun extend_all :: "FormulaRange \<Rightarrow> nat \<Rightarrow> string list \<Rightarrow> FormulaRange" where
  "extend_all cur i [] = cur"
| "extend_all cur i (f # fs) = extend_all (extend_range cur i f) (Suc i) fs"

subsection \<open>The signature of a row\<close>

text \<open>
  The signature of the formula in the row's cell of the column, \<open>None\<close> for a row that
  the scan treats as a gap.
\<close>

definition signature_of :: "string option \<Rightarrow> string option" where
  "signature_of g = map_option normalize_formula g"

definition row_signature :: "RowData list \<Rightarrow> nat \<Rightarrow> nat \<Rightarrow> string option" where
  "row_signature row_data col_idx row_idx = signature_of (row_formula row_data col_idx row_idx)"

subsection \<open>Values on which the shape tests agree\<close>

text \<open>
  A value is classified alike when the detector's date and number tests give what the
  specification's shape tests give.
\<close>

definition classified_alike :: "string \<Rightarrow> bool" where
  "classified_alike v =
     (is_date v = spec_date_shaped v
      \<and> (v \<noteq> [] \<and> str_isdigit (str_remove CHR ''-'' (str_remove CHR ''.'' v)))
        = spec_numeric_shaped v)"

section \<open>Concrete runs\<close>

text \<open>
  C1. The claim: \<open>detect\<close> returns normally on every list of nullable strings. On a value
  made of whitespace with a space in it the prefix rule evaluates \<open>str(val).split()[0]\<close> on
  an empty list: the call raises \<open>IndexError\<close>.
\<close>

theorem detect_pattern_raises_on_blank_value:
  "detect_pattern [Some '' '', Some ''a'', Some ''b'', Some ''c'', Some ''d'', Some ''e'']
     = Inl IndexError"
  by code_simp

text \<open>
  C2. The claim: on Q1, Rev, Q1, Rev, Q1, Cost the result is a repeating pattern of block
  size 2 with one break. Two matching blocks of three are below the threshold
  (\<open>2 >= 3 * 0.7\<close> is false), no block size is accepted, and the prefix rule answers.
\<close>

theorem detect_pattern_q1_cost_not_repeating:
  "returned_type
     (detect_pattern [Some ''Q1'', Some ''Rev'', Some ''Q1'', Some ''Rev'', Some ''Q1'', Some ''Cost''])
   \<noteq> Some ''repeating''"
  by code_simp

text \<open>
  C2, amended: on Q1, Rev, Q1, Rev, Q1, Cost the result is the prefix grouping with the
  common prefix Q1, found in 3 of the 6 values.
\<close>

theorem detect_pattern_q1_cost:
  "detect_pattern [Some ''Q1'', Some ''Rev'', Some ''Q1'', Some ''Rev'', Some ''Q1'', Some ''Cost'']
     = Inr (VariedWithPrefix ''Q1'' 3 6 [''Q1'', ''Rev'', ''Q1'', ''Rev'', ''Q1''])"
  by code_simp

text \<open>
  C3. The claim: three ISO dates give a date sequence. The template of a date is
  \<open><date>\<close>, so with block size 1 all three blocks match and the result is a repeating
  pattern.
\<close>

theorem detect_pattern_dates_not_date_sequence:
  "returned_type
     (detect_pattern [Some ''2024-01-01'', Some ''2024-01-02'', Some ''2024-01-03''])
   \<noteq> Some ''date_sequence''"
  by code_simp

text \<open>
  C3, amended: three ISO dates give the repeating pattern of block size 1 with the
  template \<open><date>\<close>, three repeats and no break.
\<close>

theorem detect_pattern_dates:
  "detect_pattern [Some ''2024-01-01'', Some ''2024-01-02'', Some ''2024-01-03'']
     = Inr (Repeating 1 [''<date>''] 3 3 [''2024-01-01''] None)"
  by code_simp

text \<open>
  C5. The claim: on Q1, Rev three times the result is the repeating pattern of block size 2
  with a \<open>breaks\<close> field equal to the empty list. The pattern is found, but the key
  \<open>breaks\<close> is only set when there is a break: here it is absent.
\<close>

theorem detect_pattern_q1_rev_breaks_absent:
  "returned_breaks
     (detect_pattern [Some ''Q1'', Some ''Rev'', Some ''Q1'', Some ''Rev'', Some ''Q1'', Some ''Rev''])
   \<noteq> Some []"
  by code_simp

text \<open>
  C5, amended: the result is the repeating pattern of block size 2 with the template
  Q1, Rev, three repeats, six items, and no \<open>breaks\<close> key.
\<close>

theorem detect_pattern_q1_rev:
  "detect_pattern [Some ''Q1'', Some ''Rev'', Some ''Q1'', Some ''Rev'', Some ''Q1'', Some ''Rev'']
     = Inr (Repeating 2 [''Q1'', ''Rev''] 3 6 [''Q1'', ''Rev''] None)"
  by code_simp

section \<open>The threshold comparison\<close>

text \<open>
  For fewer than \<open>2^49\<close> blocks the comparison \<open>matching_blocks >= len(blocks) * 0.7\<close>
  of doubles decides exactly whether the matching blocks are at least 70% of the blocks:
  the product is below the exact value by less than a tenth and rounding preserves the
  order with the integers.
\<close>

lemma bit_length_pos: "0 < p \<Longrightarrow> 0 < bit_length p"
  by (subst bit_length.simps) simp

lemma bit_length_bounds: "0 < p \<Longrightarrow> 2 ^ (bit_length p - 1) \<le> p \<and> p < 2 ^ bit_length p"
proof (induction p rule: bit_length.induct)
  case (1 p)
  show ?case
  proof (cases "p = 1")
    case True
    then show ?thesis by (simp add: bit_length.simps[of 1] bit_length.simps[of 0])
  next
    case False
    with 1(2) have pos: "0 < p div 2" by simp
    from 1(1) 1(2) pos have ih: "2 ^ (bit_length (p div 2) - 1) \<le> p div 2" "p div 2 < 2 ^ bit_length (p div 2)"
      by simp_all
    have bl: "bit_length p = Suc (bit_length (p div 2))" using 1(2) by (subst bit_length.simps) simp
    have b2: "0 < bit_length (p div 2)" using pos by (rule bit_length_pos)
    then obtain k where k: "bit_length (p div 2) = Suc k" by (cases "bit_length (p div 2)") auto
    from ih k have "2 * 2 ^ k \<le> 2 * (p div 2)" by simp
    then have lo: "(2::int) ^ Suc k \<le> p" by simp
    from ih(2) have "p div 2 + 1 \<le> 2 ^ bit_length (p div 2)" by simp
    then have "2 * (p div 2) + 2 \<le> 2 * 2 ^ bit_length (p div 2)" by simp
    then have hi: "p < 2 * 2 ^ bit_length (p div 2)" by linarith
    from lo hi bl k show ?thesis by simp
  qed
qed

lemma bit_length_le: "0 \<le> p \<Longrightarrow> p < 2 ^ k \<Longrightarrow> bit_length p \<le> k"
proof (cases "p = 0")
  case True
  then show ?thesis by (simp add: bit_length.simps[of 0])
next
  case False
  assume "0 \<le> p" "p < 2 ^ k"
  with False have pos: "0 < p" by simp
  show ?thesis
  proof (rule ccontr)
    assume "\<not> bit_length p \<le> k"
    then have "k \<le> bit_length p - 1" by simp
    then have "(2::int) ^ k \<le> 2 ^ (bit_length p - 1)" by (rule power_increasing) simp
    with bit_length_bounds[OF pos] \<open>p < 2 ^ k\<close> show False by linarith
  qed
qed

lemma round53_small: "0 \<le> p \<Longrightarrow> p < 2 ^ 53 \<Longrightarrow> round53 p = p"
  using bit_length_le[of p 53] by (simp add: round53_def)

lemma round53_lower: 
  assumes "0 \<le> p"
  shows "2 ^ 53 * (p - round53 p) \<le> p"
proof (cases "bit_length p - 53 = 0")
  case True
  then show ?thesis using assms by (simp add: round53_def)
next
  case False
  define s where "s = bit_length p - 53"
  define q where "q = p div 2 ^ s"
  define r where "r = p mod 2 ^ s"
  define h :: int where "h = 2 ^ (s - 1)"
  from False have spos: "0 < s" by (simp add: s_def)
  then have ppos: "0 < p" using assms by (cases "p = 0") (auto simp: s_def bit_length.simps[of 0])
  have p_eq: "p = q * 2 ^ s + r" unfolding q_def r_def by (rule div_mult_mod_eq[symmetric])
  have hh: "2 * h = 2 ^ s" using spos by (cases s) (auto simp: h_def)
  have "bit_length p - 1 = s + 52" using spos by (simp add: s_def)
  with bit_length_bounds[OF ppos] have "(2::int) ^ (s + 52) \<le> p" by simp
  then have "(2::int) ^ s * 2 ^ 52 \<le> p" by (simp add: power_add)
  with hh have hp: "h * 2 ^ 53 \<le> p" by simp
  have rnd: "round53 p = (if r < h then q else if h < r then q + 1 else if even q then q else q + 1) * 2 ^ s"
    using False by (simp add: round53_def Let_def s_def q_def r_def h_def)
  have rlt: "r < 2 ^ s" "0 \<le> r" by (simp_all add: r_def)
  have "p - round53 p \<le> h"
  proof (cases "r < h")
    case True
    with rnd p_eq show ?thesis by simp
  next
    case F: False
    show ?thesis
    proof (cases "h < r")
      case True
      with F rnd have "round53 p = (q + 1) * 2 ^ s" by simp
      with p_eq rlt hh show ?thesis by (simp add: algebra_simps)
    next
      case False
      with F have "r = h" by simp
      with rnd p_eq hh show ?thesis by (auto simp: algebra_simps)
    qed
  qed
  then have "2 ^ 53 * (p - round53 p) \<le> 2 ^ 53 * h" by simp
  with hp show ?thesis by (simp add: mult.commute)
qed

lemma round53_upper:
  assumes "0 \<le> p" "p \<le> m * 2 ^ 53" "p < 2 ^ 106"
  shows "round53 p \<le> m * 2 ^ 53"
proof (cases "bit_length p - 53 = 0")
  case True
  then show ?thesis using assms by (simp add: round53_def)
next
  case False
  define s where "s = bit_length p - 53"
  define q where "q = p div 2 ^ s"
  define r where "r = p mod 2 ^ s"
  define h :: int where "h = 2 ^ (s - 1)"
  from False have spos: "0 < s" by (simp add: s_def)
  have "bit_length p \<le> 106" using assms bit_length_le by blast
  then have s53: "s \<le> 53" by (simp add: s_def)
  define t where "t = m * 2 ^ (53 - s)"
  have Q: "m * 2 ^ 53 = t * 2 ^ s"
    using s53 by (simp add: t_def power_add[symmetric])
  have p_eq: "p = q * 2 ^ s + r" unfolding q_def r_def by (rule div_mult_mod_eq[symmetric])
  have rlt: "r < 2 ^ s" "0 \<le> r" by (simp_all add: r_def)
  have hpos: "0 < h" by (simp add: h_def)
  have rnd: "round53 p = (if r < h then q else if h < r then q + 1 else if even q then q else q + 1) * 2 ^ s"
    using False by (simp add: round53_def Let_def s_def q_def r_def h_def)
  have qt: "q \<le> t"
  proof -
    have "q * 2 ^ s \<le> t * 2 ^ s" using p_eq rlt assms(2) Q by linarith
    then show ?thesis by simp
  qed
  have up: "0 < r \<Longrightarrow> q + 1 \<le> t"
  proof -
    assume "0 < r"
    have "q \<noteq> t"
    proof
      assume "q = t"
      with p_eq Q \<open>0 < r\<close> assms(2) show False by simp
    qed
    with qt show ?thesis by simp
  qed
  have "(if r < h then q else if h < r then q + 1 else if even q then q else q + 1) \<le> t"
    using qt up hpos by auto
  then have "round53 p \<le> t * 2 ^ s" unfolding rnd by (simp add: mult_right_mono)
  with Q show ?thesis by simp
qed

lemma ge_0_7_iff:
  assumes "n < 2 ^ 49"
  shows "ge_0_7 m n \<longleftrightarrow> 7 * n \<le> 10 * m"
proof -
  let ?M = "6305039478318694 :: int"
  define P where "P = int n * ?M"
  define R where "R = round53 P"
  have nb: "int n < 2 ^ 49" using assms by (metis of_nat_less_iff of_nat_numeral of_nat_power)
  have fl: "float_of_len n = int n" using nb by (simp add: float_of_len_def round53_small)
  have t: "times_0_7 n = R" by (simp add: times_0_7_def fl P_def R_def)
  have P0: "0 \<le> P" by (simp add: P_def)
  have P10: "10 * P = 63050394783186940 * int n" by (simp add: P_def)
  have Pb: "P < 2 ^ 106"
  proof -
    have "P \<le> int n * 2 ^ 53" unfolding P_def by (intro mult_left_mono) simp_all
    also have "\<dots> < 2 ^ 49 * 2 ^ 53" using nb by simp
    finally show ?thesis by simp
  qed
  have low: "2 ^ 53 * (P - R) \<le> P" unfolding R_def using round53_lower[OF P0] .
  show ?thesis
  proof
    assume "ge_0_7 m n"
    then have Rm: "R \<le> int m * 2 ^ 53" by (simp add: ge_0_7_def t)
    show "7 * n \<le> 10 * m"
    proof (rule ccontr)
      assume "\<not> 7 * n \<le> 10 * m"
      then have "10 * int m + 1 \<le> 7 * int n" by linarith
      with Rm low P10 nb show False by simp
    qed
  next
    assume "7 * n \<le> 10 * m"
    then have "7 * int n \<le> 10 * int m" by linarith
    with P10 have "P \<le> int m * 2 ^ 53" by simp
    from round53_upper[OF P0 this Pb] show "ge_0_7 m n" by (simp add: ge_0_7_def t R_def)
  qed
qed

section \<open>Formula normalisation is idempotent\<close>

lemma upper_not_digit: "re_upper c \<Longrightarrow> \<not> re_digit c"
  by (simp add: re_upper_def re_digit_def)

lemma dollar_class [simp]: "\<not> re_upper CHR ''$''" "\<not> re_digit CHR ''$''"
  by (simp_all add: re_upper_def re_digit_def)

lemma ref_pair_Cons: "ref_pair s \<Longrightarrow> ref_pair (c # s)"
  by (cases s) auto

lemma ref_triple_Cons: "ref_triple s \<Longrightarrow> ref_triple (c # s)"
  by (cases s rule: ref_triple.cases) auto

lemma ref_pair_skip: "\<not> re_upper a \<Longrightarrow> ref_pair (a # x) = ref_pair x"
  by (cases x) auto

lemma ref_triple_skip: "\<not> re_upper a \<Longrightarrow> ref_triple (a # x) = ref_triple x"
  by (cases x rule: ref_pair.cases) auto

lemma ref_triple_drop: "ref_triple (drop k s) \<Longrightarrow> ref_triple s"
proof (induction s arbitrary: k)
  case Nil
  then show ?case by simp
next
  case (Cons a s)
  then show ?case by (cases k) (auto intro: ref_triple_Cons)
qed

lemma ref_pair_letters:
  "ls \<noteq> [] \<Longrightarrow> \<forall>x\<in>set ls. re_upper x \<Longrightarrow> re_digit d \<Longrightarrow> ref_pair (ls @ d # r)"
proof (induction ls)
  case Nil
  then show ?case by simp
next
  case (Cons a ls)
  then show ?case by (cases ls) auto
qed

lemma ref_triple_letters:
  "ls \<noteq> [] \<Longrightarrow> \<forall>x\<in>set ls. re_upper x \<Longrightarrow> re_digit d \<Longrightarrow> ref_triple (ls @ CHR ''$'' # d # r)"
proof (induction ls)
  case Nil
  then show ?case by simp
next
  case (Cons a ls)
  then show ?case by (cases ls) (auto intro: ref_triple_Cons)
qed

lemma takeWhile_digit_nonempty:
  "takeWhile re_digit s \<noteq> [] \<Longrightarrow> \<exists>d r. s = d # r \<and> re_digit d"
  by (cases s) (auto split: if_splits)

lemma letters_split:
  "s = takeWhile re_upper s @ dropWhile re_upper s \<and> (\<forall>x\<in>set (takeWhile re_upper s). re_upper x)"
  by (auto dest: set_takeWhileD)

lemma ref_match_rel_pair:
  assumes "ref_match col_abs False s = Some n"
  shows "ref_pair s"
proof -
  obtain s1 where s1: "expect_dollar col_abs s = Some s1"
    using assms by (auto simp: ref_match_def split: option.splits)
  let ?ls = "takeWhile re_upper s1"
  let ?rest = "dropWhile re_upper s1"
  from assms s1 have ls: "?ls \<noteq> []" and dg: "takeWhile re_digit ?rest \<noteq> []"
    by (auto simp: ref_match_def expect_dollar_def Let_def split: option.splits if_splits)
  from dg obtain d r where rest: "?rest = d # r" "re_digit d"
    using takeWhile_digit_nonempty by blast
  have "s1 = ?ls @ d # r" using rest letters_split[of s1] by simp
  moreover have "\<forall>x\<in>set ?ls. re_upper x" using letters_split[of s1] by blast
  ultimately have "ref_pair s1" using ref_pair_letters[OF ls _ rest(2), of r] by simp
  moreover have "s = s1 \<or> (\<exists>c. s = c # s1)"
    using s1 by (auto simp: expect_dollar_def split: if_splits list.splits)
  ultimately show ?thesis by (auto intro: ref_pair_Cons)
qed

lemma ref_match_abs_triple:
  assumes "ref_match col_abs True s = Some n"
  shows "ref_triple s"
proof -
  obtain s1 where s1: "expect_dollar col_abs s = Some s1"
    using assms by (auto simp: ref_match_def split: option.splits)
  let ?ls = "takeWhile re_upper s1"
  let ?rest = "dropWhile re_upper s1"
  from assms s1 have ls: "?ls \<noteq> []"
    by (auto simp: ref_match_def Let_def split: option.splits if_splits)
  from assms s1 ls obtain s3 where s3: "expect_dollar True ?rest = Some s3"
      and dg: "takeWhile re_digit s3 \<noteq> []"
    by (auto simp: ref_match_def Let_def split: option.splits if_splits)
  from s3 have rest: "?rest = CHR ''$'' # s3"
    by (auto simp: expect_dollar_def split: list.splits if_splits)
  from dg obtain d r where d: "s3 = d # r" "re_digit d"
    using takeWhile_digit_nonempty by blast
  have "s1 = ?ls @ CHR ''$'' # d # r" using rest d letters_split[of s1] by simp
  moreover have "\<forall>x\<in>set ?ls. re_upper x" using letters_split[of s1] by blast
  ultimately have "ref_triple s1" using ref_triple_letters[OF ls _ d(2), of r] by simp
  moreover have "s = s1 \<or> (\<exists>c. s = c # s1)"
    using s1 by (auto simp: expect_dollar_def split: if_splits list.splits)
  ultimately show ?thesis by (auto intro: ref_triple_Cons)
qed

lemma re_sub_no_pair: "\<not> ref_pair s \<Longrightarrow> re_sub (ref_match col_abs False) repl s = s"
proof (induction s)
  case Nil
  then show ?case by simp
next
  case (Cons c cs)
  have "ref_match col_abs False (c # cs) = None"
    using Cons.prems ref_match_rel_pair by (cases "ref_match col_abs False (c # cs)") auto
  moreover have "\<not> ref_pair cs" using Cons.prems ref_pair_Cons by blast
  ultimately show ?case using Cons.IH by simp
qed

lemma re_sub_no_triple: "\<not> ref_triple s \<Longrightarrow> re_sub (ref_match col_abs True) repl s = s"
proof (induction s)
  case Nil
  then show ?case by simp
next
  case (Cons c cs)
  have "ref_match col_abs True (c # cs) = None"
    using Cons.prems ref_match_abs_triple by (cases "ref_match col_abs True (c # cs)") auto
  moreover have "\<not> ref_triple cs" using Cons.prems ref_triple_Cons by blast
  ultimately show ?case using Cons.IH by simp
qed

lemma re_sub_head:
  assumes "re_sub m (b # repl) s = x # t"
  shows "x = b \<or> (\<exists>cs. s = x # cs \<and> m s = None \<and> t = re_sub m (b # repl) cs)"
  using assms by (cases s) (auto split: option.splits)

lemma match_rel_at: "re_upper a \<Longrightarrow> re_digit b \<Longrightarrow> ref_match False False (a # b # r) \<noteq> None"
  by (auto simp: ref_match_def expect_dollar_def Let_def dest: upper_not_digit)

lemma match_row_abs_at:
  "re_upper a \<Longrightarrow> re_digit c \<Longrightarrow> ref_match False True (a # CHR ''$'' # c # r) \<noteq> None"
  by (auto simp: ref_match_def expect_dollar_def Let_def)

lemma brace_class [simp]:
  "\<not> re_upper CHR ''{''" "\<not> re_digit CHR ''{''" "\<not> re_upper CHR ''}''" "\<not> re_digit CHR ''}''"
  "\<not> re_upper CHR ''_''" "\<not> re_digit CHR ''_''"
  "\<not> re_digit CHR ''A''" "\<not> re_digit CHR ''B''" "\<not> re_digit CHR ''S''" "\<not> re_digit CHR ''R''"
  "\<not> re_digit CHR ''E''" "\<not> re_digit CHR ''L''" "\<not> re_digit CHR ''O''" "\<not> re_digit CHR ''W''"
  "\<not> re_digit CHR ''C''"
  by (simp_all add: re_upper_def re_digit_def)

lemma ref_triple_skip2: "b \<noteq> CHR ''$'' \<Longrightarrow> ref_triple (a # b # x) = ref_triple (b # x)"
  by (cases x) auto

lemma placeholder_pair [simp]:
  "ref_pair (''{REL}'' @ x) = ref_pair x"
  by (simp add: ref_pair_skip)

lemma placeholder_triple [simp]:
  "ref_triple (''{REL}'' @ x) = ref_triple x"
  "ref_triple (''{ROW_ABS}'' @ x) = ref_triple x"
  by (simp_all add: ref_triple_skip ref_triple_skip2)

lemma sub_rel_no_pair: "\<not> ref_pair (re_sub (ref_match False False) ''{REL}'' s)"
proof (induction s rule: length_induct)
  case (1 s)
  show ?case
  proof (cases s)
    case Nil
    then show ?thesis by simp
  next
    case (Cons c cs)
    show ?thesis
    proof (cases "ref_match False False (c # cs)")
      case None
      let ?out = "re_sub (ref_match False False) ''{REL}'' cs"
      have ih: "\<not> ref_pair ?out" using 1 Cons by simp
      have "\<not> ref_pair (c # ?out)"
      proof (cases ?out)
        case Nil
        then show ?thesis by simp
      next
        case (Cons x t)
        have "\<not> (re_upper c \<and> re_digit x)"
        proof
          assume cx: "re_upper c \<and> re_digit x"
          from re_sub_head[OF Cons[simplified]] cx
          obtain cs' where "cs = x # cs'" by auto
          with cx match_rel_at[of c x cs'] None show False by simp
        qed
        with ih Cons show ?thesis by simp
      qed
      with None Cons show ?thesis by simp
    next
      case (Some n)
      have "length (drop (n - 1) cs) < length s" using Cons by simp
      with 1 have "\<not> ref_pair (re_sub (ref_match False False) ''{REL}'' (drop (n - 1) cs))"
        by blast
      with Some Cons show ?thesis by (simp add: ref_pair_skip)
    qed
  qed
qed

lemma triple_after_copy:
  assumes "ref_triple (c # re_sub m (CHR ''{'' # repl) cs)"
    and "\<not> ref_triple (re_sub m (CHR ''{'' # repl) cs)"
  shows "\<exists>y r. cs = CHR ''$'' # y # r \<and> re_upper c \<and> re_digit y"
proof -
  let ?out = "re_sub m (CHR ''{'' # repl) cs"
  from assms obtain y t where out: "?out = CHR ''$'' # y # t" and cy: "re_upper c" "re_digit y"
    by (cases ?out rule: ref_pair.cases) auto
  from re_sub_head[OF out] obtain cs' where cs': "cs = CHR ''$'' # cs'"
    "y # t = re_sub m (CHR ''{'' # repl) cs'" by auto
  from re_sub_head[OF cs'(2)[symmetric]] cy obtain cs'' where "cs' = y # cs''" by auto
  with cs' cy show ?thesis by simp
qed

lemma re_sub_keeps_triple_free:
  assumes repl: "\<And>x. ref_triple (CHR ''{'' # repl @ x) = ref_triple x"
  shows "\<not> ref_triple s \<Longrightarrow> \<not> ref_triple (re_sub m (CHR ''{'' # repl) s)"
proof (induction s rule: length_induct)
  case (1 s)
  show ?case
  proof (cases s)
    case Nil
    then show ?thesis by simp
  next
    case (Cons c cs)
    show ?thesis
    proof (cases "m (c # cs)")
      case None
      let ?out = "re_sub m (CHR ''{'' # repl) cs"
      have nt: "\<not> ref_triple cs" using 1(2) Cons ref_triple_Cons by blast
      with 1 Cons have ih: "\<not> ref_triple ?out" by simp
      have "\<not> ref_triple (c # ?out)"
      proof
        assume "ref_triple (c # ?out)"
        from triple_after_copy[OF this ih] obtain y r where
          "cs = CHR ''$'' # y # r" "re_upper c" "re_digit y" by blast
        with Cons have "ref_triple s" by simp
        with 1(2) show False by simp
      qed
      with None Cons show ?thesis by simp
    next
      case (Some n)
      have len: "length (drop (n - 1) cs) < length s" using Cons by simp
      have "\<not> ref_triple (drop (n - 1) cs)"
        using 1(2) Cons ref_triple_drop ref_triple_Cons by blast
      with 1 len have "\<not> ref_triple (re_sub m (CHR ''{'' # repl) (drop (n - 1) cs))"
        by blast
      with Some Cons repl show ?thesis by simp
    qed
  qed
qed

lemma re_sub_own_triple_free:
  assumes nomatch: "\<And>a c r. re_upper a \<Longrightarrow> re_digit c \<Longrightarrow> m (a # CHR ''$'' # c # r) \<noteq> None"
    and repl: "\<And>x. ref_triple (CHR ''{'' # repl @ x) = ref_triple x"
  shows "\<not> ref_triple (re_sub m (CHR ''{'' # repl) s)"
proof (induction s rule: length_induct)
  case (1 s)
  show ?case
  proof (cases s)
    case Nil
    then show ?thesis by simp
  next
    case (Cons c cs)
    show ?thesis
    proof (cases "m (c # cs)")
      case None
      let ?out = "re_sub m (CHR ''{'' # repl) cs"
      from 1 Cons have ih: "\<not> ref_triple ?out" by simp
      have "\<not> ref_triple (c # ?out)"
      proof
        assume "ref_triple (c # ?out)"
        from triple_after_copy[OF this ih] obtain y r where
          "cs = CHR ''$'' # y # r" "re_upper c" "re_digit y" by blast
        with nomatch[of c y r] None show False by simp
      qed
      with None Cons show ?thesis by simp
    next
      case (Some n)
      have len: "length (drop (n - 1) cs) < length s" using Cons by simp
      with 1 have "\<not> ref_triple (re_sub m (CHR ''{'' # repl) (drop (n - 1) cs))"
        by blast
      with Some Cons repl show ?thesis by simp
    qed
  qed
qed

lemma sub_row_abs_no_triple: "\<not> ref_triple (sub_row_abs s)"
  unfolding sub_row_abs_def
  using re_sub_own_triple_free[of "ref_match False True" "''ROW_ABS}''" s]
  by (simp add: match_row_abs_at ref_triple_skip ref_triple_skip2)

lemma sub_rel_keeps_triple_free: "\<not> ref_triple s \<Longrightarrow> \<not> ref_triple (sub_rel s)"
  unfolding sub_rel_def
  using re_sub_keeps_triple_free[of "''REL}''" s "ref_match False False"]
  by (simp add: ref_triple_skip ref_triple_skip2)

lemma normalize_formula_clean:
  "\<not> ref_pair (normalize_formula f) \<and> \<not> ref_triple (normalize_formula f)"
  using sub_rel_no_pair sub_rel_keeps_triple_free sub_row_abs_no_triple
  by (simp add: normalize_formula_def sub_rel_def)

lemma passes_identity_on_clean:
  assumes "\<not> ref_pair s" "\<not> ref_triple s"
  shows "sub_abs s = s" "sub_col_abs s = s" "sub_row_abs s = s" "sub_rel s = s"
  using assms
  by (simp_all add: sub_abs_def sub_col_abs_def sub_row_abs_def sub_rel_def
        re_sub_no_pair re_sub_no_triple)

text \<open>
  C8. Normalising a normalised formula changes nothing: none of the four passes finds a
  match in the result, whose placeholders and remaining text hold no cell reference. The
  two formulas of the specification normalise as it says.
\<close>

theorem normalize_formula_idempotent:
  "normalize_formula (normalize_formula f) = normalize_formula f
   \<and> sub_abs (normalize_formula f) = normalize_formula f
   \<and> sub_col_abs (normalize_formula f) = normalize_formula f
   \<and> sub_row_abs (normalize_formula f) = normalize_formula f
   \<and> sub_rel (normalize_formula f) = normalize_formula f
   \<and> normalize_formula ''=$A$1+B2'' = ''={ABS}+{REL}''
   \<and> normalize_formula ''=A1+$B1'' = ''={REL}+{COL_ABS}''"
proof -
  have ex1: "normalize_formula ''=$A$1+B2'' = ''={ABS}+{REL}''" by code_simp
  have ex2: "normalize_formula ''=A1+$B1'' = ''={REL}+{COL_ABS}''" by code_simp
  let ?n = "normalize_formula f"
  have clean: "\<not> ref_pair ?n" "\<not> ref_triple ?n" using normalize_formula_clean by simp_all
  note ids = passes_identity_on_clean[OF clean]
  have "normalize_formula ?n = ?n"
    by (simp add: normalize_formula_def[of ?n] ids)
  with ids ex1 ex2 show ?thesis by simp
qed

section \<open>The flow entries of a broken column\<close>



section \<open>The repeating-block search\<close>

subsection \<open>The loop body in terms of the chunks\<close>

lemma filter_less_upt: "filter (\<lambda>k. k < a) [0..<c] = [0..<min a c]"
proof (induction c)
  case 0
  then show ?case by simp
next
  case (Suc c)
  show ?case
  proof (cases "c < a")
    case True
    then have "min a (Suc c) = Suc (min a c)" by (simp add: min_def)
    with Suc True show ?thesis by simp
  next
    case False
    then have "min a (Suc c) = min a c" by (simp add: min_def)
    with Suc False show ?thesis by simp
  qed
qed

lemma blocks_of_eq:
  assumes "1 \<le> b"
  shows "blocks_of b ne = spec_chunks b ne"
proof -
  let ?n = "length ne"
  let ?c = "(?n + b - 1) div b"
  have len: "(length (take b (drop (k * b) ne)) = b) = (k < ?n div b)" for k
  proof -
    have "(k < ?n div b) = (Suc k \<le> ?n div b)" by auto
    also have "\<dots> = (Suc k * b \<le> ?n)"
      using less_eq_div_iff_mult_less_eq[of b "Suc k" ?n] assms by simp
    also have "\<dots> = (b \<le> ?n - k * b)" using assms by (simp add: algebra_simps) arith
    finally have "(k < ?n div b) = (b \<le> ?n - k * b)" .
    then show ?thesis by (auto simp: min_def)
  qed
  have le: "?n div b \<le> ?c"
    using assms by (intro div_le_mono) simp
  have "blocks_of b ne
        = filter (\<lambda>block. length block = b) (map (\<lambda>k. take b (drop (k * b) ne)) [0..<?c])"
    by (simp add: blocks_of_def range_step_def comp_def)
  also have "\<dots> = map (\<lambda>k. take b (drop (k * b) ne))
                     (filter (\<lambda>k. length (take b (drop (k * b) ne)) = b) [0..<?c])"
    by (simp only: filter_map comp_def)
  also have "\<dots> = map (\<lambda>k. take b (drop (k * b) ne)) (filter (\<lambda>k. k < ?n div b) [0..<?c])"
    by (simp only: len)
  also have "\<dots> = spec_chunks b ne"
    using le by (simp add: filter_less_upt spec_chunks_def min_def)
  finally show ?thesis .
qed

lemma length_spec_chunks [simp]: "length (spec_chunks b ne) = length ne div b"
  by (simp add: spec_chunks_def)

lemma fold_check_block:
  "fold (check_block b T) (enumerate i bs) (m, brks)
   = (m + length (filter (\<lambda>blk. map template_elem blk = T) bs),
      brks @ map (\<lambda>ib. \<lparr>block_index = fst ib, position = fst ib * b,
                         expected_template = T, actual_values = snd ib\<rparr>)
               (filter (\<lambda>ib. map template_elem (snd ib) \<noteq> T) (enumerate i bs)))"
  by (induction bs arbitrary: i m brks) (auto simp: check_block_def)

lemma enumerate_drop1: "enumerate 1 (drop 1 C) = map (\<lambda>k. (k, C ! k)) [1..<length C]"
  by (auto simp: list_eq_iff_nth_eq nth_enumerate_eq)


lemma nth_spec_chunks: "k < length ne div b \<Longrightarrow> spec_chunks b ne ! k = take b (drop (k * b) ne)"
  by (simp add: spec_chunks_def)

lemma length_filter_nth:
  "length (filter (\<lambda>k. P (C ! k)) [0..<length C]) = length (filter P C)"
proof -
  have "filter P C = filter P (map (\<lambda>k. C ! k) [0..<length C])" by (simp add: map_nth)
  also have "\<dots> = map (\<lambda>k. C ! k) (filter (\<lambda>k. P (C ! k)) [0..<length C])"
    by (simp only: filter_map comp_def)
  finally show ?thesis by simp
qed

lemma breaks_plus_matching:
  "length (break_entries b ne) + matching_count b ne = length (spec_chunks b ne)"
proof -
  let ?C = "spec_chunks b ne"
  let ?P = "\<lambda>c. map template_elem c = map template_elem (hd ?C)"
  have "length (break_entries b ne) = length (filter (\<lambda>c. \<not> ?P c) ?C)"
    unfolding break_entries_def length_map by (rule length_filter_nth)
  then show ?thesis
    unfolding matching_count_def using sum_length_filter_compl[of ?P ?C] by simp
qed

lemma matching_split:
  assumes "C \<noteq> []"
  shows "length (filter (\<lambda>c. f c = f (hd C)) C) = 1 + length (filter (\<lambda>c. f c = f (hd C)) (drop 1 C))"
  using assms by (cases C) auto

lemma breaks_from_one:
  assumes "C \<noteq> []"
  shows "filter (\<lambda>k. f (C ! k) \<noteq> f (hd C)) [0..<length C]
         = filter (\<lambda>k. f (C ! k) \<noteq> f (hd C)) [1..<length C]"
proof -
  have "[0..<length C] = 0 # [1..<length C]" using assms by (simp add: upt_conv_Cons)
  moreover have "f (C ! 0) = f (hd C)" using assms by (simp add: hd_conv_nth)
  ultimately show ?thesis by simp
qed

lemma try_block_size_eq:
  assumes "1 \<le> b"
  shows "try_block_size ne b =
     (if length ne div b < 2 then None
      else if ge_0_7 (matching_count b ne) (length ne div b)
        then Some (Repeating b (map template_elem (hd (spec_chunks b ne))) (length ne div b)
                     (length ne) (hd (spec_chunks b ne))
                     (if break_entries b ne \<noteq> [] then Some (break_entries b ne) else None))
      else None)"
proof (cases "length ne div b < 2")
  case True
  then show ?thesis by (simp add: try_block_size_def blocks_of_eq[OF assms])
next
  case False
  let ?C = "spec_chunks b ne"
  let ?T = "map template_elem (?C ! 0)"
  have ne: "?C \<noteq> []"
  proof
    assume e: "?C = []"
    have "length ?C = length ne div b" by simp
    with e False show False by simp
  qed
  have hd: "?C ! 0 = hd ?C" using ne by (simp add: hd_conv_nth)
  have m: "1 + length (filter (\<lambda>blk. map template_elem blk = ?T) (drop 1 ?C)) = matching_count b ne"
    unfolding matching_count_def hd using matching_split[OF ne, of "map template_elem"] by simp
  have br: "map (\<lambda>ib. \<lparr>block_index = fst ib, position = fst ib * b,
                         expected_template = ?T, actual_values = snd ib\<rparr>)
               (filter (\<lambda>ib. map template_elem (snd ib) \<noteq> ?T) (enumerate 1 (drop 1 ?C)))
            = break_entries b ne"
    unfolding break_entries_def hd enumerate_drop1
      breaks_from_one[OF ne, of "map template_elem"]
    by (simp add: filter_map comp_def)
  show ?thesis
    using False m br
    by (simp add: try_block_size_def blocks_of_eq[OF assms] fold_check_block hd Let_def)
qed

lemma first_result_None: "first_result f xs = None \<longleftrightarrow> (\<forall>x\<in>set xs. f x = None)"
  by (induction xs) (auto split: option.splits)

lemma first_result_SomeD: "first_result f xs = Some r \<Longrightarrow> \<exists>x\<in>set xs. f x = Some r"
  by (induction xs) (auto split: option.splits)

lemma first_result_first:
  "\<forall>y\<in>set ys. f y = None \<Longrightarrow> f b = Some r \<Longrightarrow> first_result f (ys @ b # zs) = Some r"
  by (induction ys) auto


lemma later_stages_not_repeating:
  "date_stage values ne \<noteq> Inr (Repeating bs t rc ti sfb brk)"
  by (auto simp: date_stage_def prefix_stage_def list_or_varied_def Let_def
           split: sum.splits option.splits)

lemma find_repeating_SomeD:
  assumes "find_repeating ne = Some r"
  shows "\<exists>b. 1 \<le> b \<and> b \<le> 10 \<and> b \<le> length ne div 2 \<and> 2 \<le> length ne div b
           \<and> ge_0_7 (matching_count b ne) (length ne div b)
           \<and> r = Repeating b (map template_elem (hd (spec_chunks b ne))) (length ne div b)
                     (length ne) (hd (spec_chunks b ne))
                     (if break_entries b ne \<noteq> [] then Some (break_entries b ne) else None)"
proof -
  from assms obtain b where b: "b \<in> set [1..<min 11 (length ne div 2 + 1)]"
      and t: "try_block_size ne b = Some r"
    unfolding find_repeating_def by (blast dest: first_result_SomeD)
  from b have b1: "1 \<le> b" and b10: "b \<le> 10" and bh: "b \<le> length ne div 2" by auto
  from t have "\<not> length ne div b < 2" "ge_0_7 (matching_count b ne) (length ne div b)"
    "r = Repeating b (map template_elem (hd (spec_chunks b ne))) (length ne div b)
                     (length ne) (hd (spec_chunks b ne))
                     (if break_entries b ne \<noteq> [] then Some (break_entries b ne) else None)"
    by (simp_all add: try_block_size_eq[OF b1] split: if_splits)
  with b1 b10 bh show ?thesis by (intro exI[of _ b]) simp
qed

lemma detect_pattern_RepeatingD:
  assumes "detect_pattern values = Inr (Repeating bs t rc ti sfb brk)"
  shows "find_repeating (non_empty_of values) = Some (Repeating bs t rc ti sfb brk)"
  using assms later_stages_not_repeating[of "values" "non_empty_of values" bs t rc ti sfb brk]
  by (auto simp: detect_pattern_def Let_def split: if_splits option.splits)

lemma length_non_empty_of: "length (non_empty_of values) = length (filter truthy values)"
  by (simp add: non_empty_of_def)

text \<open>
  C10. A repeating result has a block size from 1 to 10, at least two blocks, no more items
  in its blocks than there are non-blank values, and, for an input of fewer than \<open>2^49\<close>
  values (where the product with the double 0.7 is exact enough), break entries for at most
  30% of the blocks.
\<close>

theorem repeating_result_bounds:
  assumes "detect_pattern values = Inr (Repeating bs t rc ti sfb brk)"
  shows "1 \<le> bs \<and> bs \<le> 10 \<and> 2 \<le> rc \<and> bs * rc \<le> ti \<and> ti = length (filter truthy values)
         \<and> (length values < 2 ^ 49 \<longrightarrow> 10 * length (breaks_list brk) \<le> 3 * rc)"
proof -
  let ?ne = "non_empty_of values"
  from find_repeating_SomeD[OF detect_pattern_RepeatingD[OF assms]]
  have b: "1 \<le> bs" "bs \<le> 10" "2 \<le> length ?ne div bs"
      "ge_0_7 (matching_count bs ?ne) (length ?ne div bs)"
      "rc = length ?ne div bs" "ti = length ?ne"
      "brk = (if break_entries bs ?ne \<noteq> [] then Some (break_entries bs ?ne) else None)"
    by auto
  have bl: "breaks_list brk = break_entries bs ?ne" using b(7) by (simp add: breaks_list_def)
  have le: "length ?ne \<le> length values" by (simp add: length_non_empty_of)
  have prod: "bs * rc \<le> ti" using b(5,6) by simp
  have "10 * length (breaks_list brk) \<le> 3 * rc" if "length values < 2 ^ 49"
  proof -
    have "length ?ne div bs \<le> length ?ne" by simp
    with le that have "length ?ne div bs < 2 ^ 49" by linarith
    from b(4) ge_0_7_iff[OF this] have "7 * rc \<le> 10 * matching_count bs ?ne" using b(5) by simp
    moreover have "length (break_entries bs ?ne) + matching_count bs ?ne = rc"
      using breaks_plus_matching[of bs ?ne] b(5) by simp
    ultimately show ?thesis unfolding bl by linarith
  qed
  with b prod show ?thesis by (simp add: length_non_empty_of)
qed

theorem repeating_result_bounds_witness:
  "detect_pattern [Some ''Q1'', Some ''Rev'', Some ''Q1'', Some ''Rev'', Some ''Q1'', Some ''Rev'',
                   Some ''Q1'', Some ''Cost'']
     = Inr (Repeating 2 [''Q1'', ''Rev''] 4 8 [''Q1'', ''Rev'']
              (Some [\<lparr>block_index = 3, position = 6, expected_template = [''Q1'', ''Rev''],
                      actual_values = [''Q1'', ''Cost'']\<rparr>]))
   \<and> (1::nat) \<le> 2 \<and> (2::nat) \<le> 10 \<and> (2::nat) \<le> 4 \<and> (2::nat) * 4 \<le> 8
   \<and> (8::nat) = length (filter truthy [Some ''Q1'', Some ''Rev'', Some ''Q1'', Some ''Rev'',
                   Some ''Q1'', Some ''Rev'', Some ''Q1'', Some ''Cost''])
   \<and> length [Some ''Q1'', Some ''Rev'', Some ''Q1'', Some ''Rev'', Some ''Q1'', Some ''Rev'',
                   Some ''Q1'', Some ''Cost''] < (2::nat) ^ 49
   \<and> 10 * length (breaks_list (Some [\<lparr>block_index = 3, position = 6,
                      expected_template = [''Q1'', ''Rev''],
                      actual_values = [''Q1'', ''Cost'']\<rparr>])) \<le> (3::nat) * 4"
proof -
  have run: "detect_pattern [Some ''Q1'', Some ''Rev'', Some ''Q1'', Some ''Rev'', Some ''Q1'', Some ''Rev'',
                   Some ''Q1'', Some ''Cost'']
     = Inr (Repeating 2 [''Q1'', ''Rev''] 4 8 [''Q1'', ''Rev'']
              (Some [\<lparr>block_index = 3, position = 6, expected_template = [''Q1'', ''Rev''],
                      actual_values = [''Q1'', ''Cost'']\<rparr>]))"
    by code_simp
  have len: "length [Some ''Q1'', Some ''Rev'', Some ''Q1'', Some ''Rev'', Some ''Q1'', Some ''Rev'',
                   Some ''Q1'', Some ''Cost''] < (2::nat) ^ 49"
    by simp
  from repeating_result_bounds[OF run] len run show ?thesis by blast
qed


section \<open>The repeating-block rule of the specification\<close>

subsection \<open>Where the shape tests agree\<close>

text \<open>
  On a sequence whose non-blank values are classified alike, with at least two non-blank
  values that are not all equal and fewer than \<open>2^49\<close> of them, the loop over the block
  sizes returns what the rule of the specification prescribes: the repeating pattern of the
  smallest accepted block size, or no repeating pattern.
\<close>

lemma spec_non_blank_eq: "spec_non_blank vs = non_empty_of vs"
proof (induction vs rule: spec_non_blank.induct)
  case 1
  then show ?case by (simp add: non_empty_of_def)
next
  case (2 vs)
  then show ?case by (simp add: non_empty_of_def truthy_def)
next
  case (3 s vs)
  then show ?case by (simp add: non_empty_of_def truthy_def)
qed

lemma template_alike:
  assumes "\<forall>v\<in>set c. classified_alike v"
  shows "spec_template c = map template_elem c"
  using assms by (auto simp: spec_template_def template_elem_def classified_alike_def)

lemma chunk_subset: "c \<in> set (spec_chunks b xs) \<Longrightarrow> set c \<subseteq> set xs"
  by (auto simp: spec_chunks_def dest!: in_set_takeD in_set_dropD)

lemma chunks_alike:
  assumes "\<forall>v\<in>set xs. classified_alike v" "c \<in> set (spec_chunks b xs)"
  shows "spec_template c = map template_elem c"
  using assms chunk_subset[OF assms(2)] by (intro template_alike) auto

lemma hd_chunks_alike:
  assumes "\<forall>v\<in>set xs. classified_alike v" "spec_chunks b xs \<noteq> []"
  shows "spec_template (hd (spec_chunks b xs)) = map template_elem (hd (spec_chunks b xs))"
  using assms by (intro chunks_alike[of xs _ b]) simp_all

lemma spec_matching_alike:
  assumes "\<forall>v\<in>set xs. classified_alike v"
  shows "spec_matching b xs = matching_count b xs"
proof (cases "spec_chunks b xs = []")
  case True
  then show ?thesis by (simp add: spec_matching_def matching_count_def)
next
  case False
  have "filter (\<lambda>c. spec_template c = spec_template (hd (spec_chunks b xs))) (spec_chunks b xs)
        = filter (\<lambda>c. map template_elem c = map template_elem (hd (spec_chunks b xs))) (spec_chunks b xs)"
    using chunks_alike[OF assms] hd_chunks_alike[OF assms False]
    by (intro filter_cong) auto
  then show ?thesis by (simp add: spec_matching_def matching_count_def)
qed

lemma spec_breaks_alike:
  assumes "\<forall>v\<in>set xs. classified_alike v"
  shows "spec_breaks b xs = break_entries b xs"
proof (cases "spec_chunks b xs = []")
  case True
  then show ?thesis by (simp add: spec_breaks_def break_entries_def)
next
  case False
  note h = hd_chunks_alike[OF assms False]
  have k: "spec_template (spec_chunks b xs ! k) = map template_elem (spec_chunks b xs ! k)"
    if "k < length (spec_chunks b xs)" for k
    using nth_mem[OF that] by (rule chunks_alike[OF assms])
  have "filter (\<lambda>k. spec_template (spec_chunks b xs ! k) \<noteq> spec_template (hd (spec_chunks b xs)))
          [0..<length (spec_chunks b xs)]
        = filter (\<lambda>k. map template_elem (spec_chunks b xs ! k) \<noteq> map template_elem (hd (spec_chunks b xs)))
          [0..<length (spec_chunks b xs)]"
    using k h by (intro filter_cong) auto
  then show ?thesis unfolding spec_breaks_def break_entries_def h by simp
qed

lemma first_result_find:
  assumes "\<forall>x\<in>set xs. f x = (if P x then Some (g x) else None)"
  shows "first_result f xs = map_option g (find P xs)"
  using assms by (induction xs) auto

lemma find_repeating_spec:
  assumes "\<forall>v\<in>set ne. classified_alike v" "length ne < 2 ^ 49"
  shows "find_repeating ne
         = map_option (\<lambda>b. Repeating b (spec_template (hd (spec_chunks b ne)))
                              (length (spec_chunks b ne)) (length ne) (hd (spec_chunks b ne))
                              (if spec_breaks b ne = [] then None else Some (spec_breaks b ne)))
             (spec_search ne)"
proof -
  have "min 11 (length ne div 2 + 1) = Suc (min 10 (length ne div 2))" by arith
  then have rng: "[1..<min 11 (length ne div 2 + 1)] = [1..<Suc (min 10 (length ne div 2))]"
    by (simp only:)
  have "try_block_size ne b
        = (if spec_accepts b ne
           then Some (Repeating b (spec_template (hd (spec_chunks b ne)))
                        (length (spec_chunks b ne)) (length ne) (hd (spec_chunks b ne))
                        (if spec_breaks b ne = [] then None else Some (spec_breaks b ne)))
           else None)"
    if "b \<in> set [1..<Suc (min 10 (length ne div 2))]" for b
  proof -
    from that have "b \<in> {1..<Suc (min 10 (length ne div 2))}" by (simp only: set_upt)
    then have b1: "1 \<le> b" by (simp only: atLeastLessThan_iff)
    have "length ne div b \<le> length ne" by simp
    with assms(2) have "length ne div b < 2 ^ 49" by linarith
    note thr = ge_0_7_iff[OF this]
    show ?thesis
    proof (cases "length ne div b < 2")
      case True
      then show ?thesis by (simp add: try_block_size_eq[OF b1] spec_accepts_def)
    next
      case False
      then have "spec_chunks b ne \<noteq> []" by (auto simp: spec_chunks_def)
      from hd_chunks_alike[OF assms(1) this] False thr show ?thesis
        by (simp add: try_block_size_eq[OF b1] spec_accepts_def
              spec_matching_alike[OF assms(1)] spec_breaks_alike[OF assms(1)])
    qed
  qed
  then show ?thesis
    unfolding find_repeating_def spec_search_def rng by (intro first_result_find) simp
qed


lemma returned_type_repeatingD:
  "returned_type r = Some ''repeating'' \<Longrightarrow> \<exists>bs t rc ti sfb brk. r = Inr (Repeating bs t rc ti sfb brk)"
  by (cases r; cases "projr r") (auto simp: returned_type_def)

lemma repeating_rule_where_classified_alike:
  assumes "\<forall>v\<in>set (spec_non_blank values). classified_alike v"
    and "2 \<le> length (spec_non_blank values)" "card (set (spec_non_blank values)) \<noteq> 1"
    and "length (spec_non_blank values) < 2 ^ 49"
  shows "case spec_repeating values of
           Some r \<Rightarrow> detect_pattern values = Inr r
         | None \<Rightarrow> returned_type (detect_pattern values) \<noteq> Some ''repeating''"
proof -
  let ?ne = "non_empty_of values"
  note a = assms[unfolded spec_non_blank_eq]
  have vne: "values \<noteq> []" using a(2) by (auto simp: non_empty_of_def)
  have "?ne \<noteq> []" "length ?ne \<noteq> 1" using a(2) by auto
  with a(3) vne have det: "detect_pattern values
             = (case find_repeating ?ne of Some r \<Rightarrow> Inr r | None \<Rightarrow> date_stage values ?ne)"
    by (simp add: detect_pattern_def Let_def)
  note fr = find_repeating_spec[OF a(1) a(4)]
  show ?thesis
  proof (cases "spec_search ?ne")
    case None
    with fr have "detect_pattern values = date_stage values ?ne" by (simp add: det)
    then have "returned_type (detect_pattern values) \<noteq> Some ''repeating''"
      using later_stages_not_repeating[of "values" ?ne] returned_type_repeatingD by metis
    with None show ?thesis by (simp add: spec_repeating_def spec_non_blank_eq)
  next
    case (Some b)
    with fr show ?thesis by (simp add: det spec_repeating_def spec_non_blank_eq Let_def)
  qed
qed

subsection \<open>A date followed by a newline\<close>


text \<open>
  C4. The claim: templates map the date-shaped elements to \<open><date>\<close> and every other
  non-numeric element to its literal value, and the result is a repeating pattern exactly
  for the smallest block size of which 70% of the chunks match. A value that is a date
  followed by a newline has none of the three date shapes, so by the claim the three
  values below are three different literal templates, no block size is accepted and the
  rule gives no repeating pattern. The detector's \<open>is_date\<close> anchors its patterns with
  \<open>$\<close>, which also matches before a final newline: the values get the template
  \<open><date>\<close> and the result is a repeating pattern of block size 1.
\<close>

theorem detect_pattern_date_before_newline:
  "spec_date_shaped ''2024-01-01''
   \<and> \<not> spec_date_shaped (''2024-01-01'' @ [CHR 0x0A])
   \<and> spec_template [''2024-01-01'' @ [CHR 0x0A]] = [''2024-01-01'' @ [CHR 0x0A]]
   \<and> spec_repeating [Some (''2024-01-01'' @ [CHR 0x0A]), Some (''2024-01-02'' @ [CHR 0x0A]),
                       Some (''2024-01-03'' @ [CHR 0x0A])] = None
   \<and> detect_pattern [Some (''2024-01-01'' @ [CHR 0x0A]), Some (''2024-01-02'' @ [CHR 0x0A]),
                      Some (''2024-01-03'' @ [CHR 0x0A])]
     = Inr (Repeating 1 [''<date>''] 3 3 [''2024-01-01'' @ [CHR 0x0A]] None)"
  by code_simp

section \<open>Formula ranges are the maximal runs\<close>

lemma scan_row_eq:
  "scan_row row_data col_idx i st =
     (case row_formula row_data col_idx i of
        None \<Rightarrow> close_range st
      | Some f \<Rightarrow> formula_step i f st)"
  by (auto simp: scan_row_def row_formula_def truthy_def Let_def split: option.splits)

lemma fold_scan_row:
  "fold (scan_row row_data col_idx) [s..<n] st
   = scan_formulas s (map (row_formula row_data col_idx) [s..<n]) st"
proof (induction "n - s" arbitrary: s st)
  case 0
  then show ?case by simp
next
  case (Suc d)
  then have "s < n" "d = n - Suc s" by auto
  with Suc(1)[of "Suc s"] show ?case by (simp add: upt_conv_Cons scan_row_eq)
qed

lemma extend_all_closed:
  "extend_all cur i fs =
     cur\<lparr>end_row := (if fs = [] then end_row cur else i + length fs - 1),
         formula_count := formula_count cur + length fs,
         formulas := formulas cur @ take (3 - length (formulas cur)) fs\<rparr>"
proof (induction fs arbitrary: cur i)
  case Nil
  then show ?case by simp
next
  case (Cons f fs)
  have "extend_all cur i (f # fs) = extend_all (extend_range cur i f) (Suc i) fs" by simp
  also have "\<dots> = (extend_range cur i f)
       \<lparr>end_row := (if fs = [] then end_row (extend_range cur i f) else Suc i + length fs - 1),
         formula_count := formula_count (extend_range cur i f) + length fs,
         formulas := formulas (extend_range cur i f)
                     @ take (3 - length (formulas (extend_range cur i f))) fs\<rparr>"
    by (rule Cons.IH)
  also have "\<dots> = cur\<lparr>end_row := (if f # fs = [] then end_row cur else i + length (f # fs) - 1),
         formula_count := formula_count cur + length (f # fs),
         formulas := formulas cur @ take (3 - length (formulas cur)) (f # fs)\<rparr>"
    by (simp add: extend_range_def take_Cons')
  finally show ?case .
qed

lemma extend_all_new:
  "extend_all (new_range i f) (Suc i) fs =
     \<lparr>start_row = i, end_row = i + length fs, pattern = normalize_formula f, first_formula = f,
      formula_count = Suc (length fs), formulas = take 3 (f # fs)\<rparr>"
  by (cases fs) (simp_all add: extend_all_closed new_range_def)

lemma pattern_extend_range [simp]: "pattern (extend_range cur i f) = pattern cur"
  by (simp add: extend_range_def)

lemma scan_formulas_runs_both:
  "(\<forall>i ranges. fst (close_range (scan_formulas i gs (ranges, None)))
                 = ranges @ maximal_runs i gs)
   \<and> (\<forall>i ranges cur f. pattern cur = normalize_formula f \<longrightarrow>
         fst (close_range (scan_formulas i gs (ranges, Some cur)))
         = ranges @ extend_all cur i (map the (takeWhile (same_signature f) gs))
             # maximal_runs (i + length (takeWhile (same_signature f) gs))
                 (dropWhile (same_signature f) gs))"
proof (induction gs)
  case Nil
  show ?case by (simp add: close_range_def)
next
  case (Cons g gs)
  then have ih1: "\<And>i ranges. fst (close_range (scan_formulas i gs (ranges, None)))
                 = ranges @ maximal_runs i gs"
    and ih2: "\<And>i ranges cur f. pattern cur = normalize_formula f \<Longrightarrow>
         fst (close_range (scan_formulas i gs (ranges, Some cur)))
         = ranges @ extend_all cur i (map the (takeWhile (same_signature f) gs))
             # maximal_runs (i + length (takeWhile (same_signature f) gs))
                 (dropWhile (same_signature f) gs)"
    by blast+
  show ?case
  proof (intro conjI allI impI)
    fix i ranges
    show "fst (close_range (scan_formulas i (g # gs) (ranges, None)))
          = ranges @ maximal_runs i (g # gs)"
    proof (cases g)
      case None
      then show ?thesis using ih1[of "Suc i" ranges] by (simp add: close_range_def)
    next
      case (Some f')
      have "pattern (new_range i f') = normalize_formula f'" by (simp add: new_range_def)
      from ih2[OF this, of "Suc i" ranges] Some show ?thesis
        by (simp add: formula_step_def extend_all_new)
    qed
  next
    fix i ranges and cur :: FormulaRange and f
    assume pat: "pattern cur = normalize_formula f"
    show "fst (close_range (scan_formulas i (g # gs) (ranges, Some cur)))
          = ranges @ extend_all cur i (map the (takeWhile (same_signature f) (g # gs)))
             # maximal_runs (i + length (takeWhile (same_signature f) (g # gs)))
                 (dropWhile (same_signature f) (g # gs))"
    proof (cases g)
      case None
      then show ?thesis using ih1[of "Suc i" "ranges @ [cur]"]
        by (simp add: close_range_def same_signature_def)
    next
      case (Some f')
      show ?thesis
      proof (cases "normalize_formula f' = normalize_formula f")
        case True
        have "pattern (extend_range cur i f') = normalize_formula f" using pat by simp
        from ih2[OF this, of "Suc i" ranges] Some True pat show ?thesis
          by (simp add: formula_step_def same_signature_def)
      next
        case False
        have "pattern (new_range i f') = normalize_formula f'" by (simp add: new_range_def)
        from ih2[OF this, of "Suc i" "ranges @ [cur]"] Some False pat show ?thesis
          by (simp add: formula_step_def same_signature_def extend_all_new)
      qed
    qed
  qed
qed

lemma analyze_formula_ranges_runs:
  "analyze_formula_ranges row_data col_idx s
   = maximal_runs s (map (row_formula row_data col_idx) [s..<length row_data])"
  by (simp add: analyze_formula_ranges_def fold_scan_row scan_formulas_runs_both)

lemma maximal_runs_props:
  "\<forall>r\<in>set (maximal_runs i gs).
     i \<le> start_row r \<and> start_row r \<le> end_row r \<and> 1 \<le> formula_count r
     \<and> length (formulas r) = min (formula_count r) 3 \<and> formulas r ! 0 = first_formula r"
proof (induction i gs rule: maximal_runs.induct)
  case (1 i)
  then show ?case by simp
next
  case (2 i fs)
  then show ?case by auto
next
  case (3 i f fs)
  then show ?case by (auto simp: min_def)
qed

lemma maximal_runs_ordered:
  "sorted_wrt (\<lambda>a b. end_row a < start_row b) (maximal_runs i gs)"
proof (induction i gs rule: maximal_runs.induct)
  case (1 i)
  then show ?case by simp
next
  case (2 i fs)
  then show ?case by simp
next
  case (3 i f fs)
  have "\<forall>r\<in>set (maximal_runs (Suc (i + length (takeWhile (same_signature f) fs)))
                    (dropWhile (same_signature f) fs)).
          i + length (takeWhile (same_signature f) fs) < start_row r"
    using maximal_runs_props by fastforce
  with 3 show ?case by simp
qed


subsection \<open>The runs, row by row\<close>

lemma same_signature_iff: "same_signature f g \<longleftrightarrow> signature_of g = Some (normalize_formula f)"
  by (cases g) (auto simp: same_signature_def signature_of_def)

lemma takeWhile_holds: "j < length (takeWhile P xs) \<Longrightarrow> P (xs ! j)"
  by (metis nth_mem set_takeWhileD takeWhile_nth)

lemma run_elem:
  assumes "j \<le> length (takeWhile (same_signature f) fs)"
  shows "signature_of ((Some f # fs) ! j) = Some (normalize_formula f)"
proof (cases j)
  case 0
  then show ?thesis by (simp add: signature_of_def)
next
  case (Suc j')
  with assms have "j' < length (takeWhile (same_signature f) fs)" by simp
  from takeWhile_holds[OF this] Suc show ?thesis by (simp add: same_signature_iff)
qed

lemma rest_elem:
  assumes "Suc (i + length (takeWhile P fs)) \<le> m"
  shows "dropWhile P fs ! (m - Suc (i + length (takeWhile P fs))) = (x # fs) ! (m - i)"
proof -
  let ?k = "length (takeWhile P fs)"
  have "dropWhile P fs ! (m - Suc (i + ?k)) = fs ! (?k + (m - Suc (i + ?k)))"
    by (simp add: dropWhile_eq_drop length_takeWhile_le)
  also have "?k + (m - Suc (i + ?k)) = m - Suc i" using assms by simp
  also have "fs ! (m - Suc i) = (x # fs) ! (m - i)"
  proof -
    have "m - i = Suc (m - Suc i)" using assms by simp
    then show ?thesis by simp
  qed
  finally show ?thesis .
qed

lemma length_rest: "Suc (i + length (takeWhile P fs)) + length (dropWhile P fs) = i + length (x # fs)"
proof -
  have "length (takeWhile P fs) + length (dropWhile P fs) = length fs"
    by (metis length_append takeWhile_dropWhile_id)
  then show ?thesis by simp
qed

lemma runs_inside:
  "\<forall>r\<in>set (maximal_runs i gs).
     i \<le> start_row r \<and> start_row r \<le> end_row r \<and> end_row r < i + length gs
     \<and> (\<forall>m. start_row r \<le> m \<and> m \<le> end_row r \<longrightarrow> signature_of (gs ! (m - i)) = Some (pattern r))"
proof (induction i gs rule: maximal_runs.induct)
  case (1 i)
  then show ?case by simp
next
  case (2 i fs)
  show ?case
  proof
    fix r assume "r \<in> set (maximal_runs i (None # fs))"
    then have r: "r \<in> set (maximal_runs (Suc i) fs)" by simp
    with 2 have a: "Suc i \<le> start_row r" "start_row r \<le> end_row r" "end_row r < Suc i + length fs"
      and b: "\<And>m. start_row r \<le> m \<Longrightarrow> m \<le> end_row r \<Longrightarrow> signature_of (fs ! (m - Suc i)) = Some (pattern r)"
      by auto
    have "signature_of ((None # fs) ! (m - i)) = Some (pattern r)"
      if "start_row r \<le> m" "m \<le> end_row r" for m
    proof -
      from that a have "m - i = Suc (m - Suc i)" by simp
      with b[OF that] show ?thesis by simp
    qed
    with a show "i \<le> start_row r \<and> start_row r \<le> end_row r \<and> end_row r < i + length (None # fs)
     \<and> (\<forall>m. start_row r \<le> m \<and> m \<le> end_row r \<longrightarrow> signature_of ((None # fs) ! (m - i)) = Some (pattern r))"
      by simp
  qed
next
  case (3 i f fs)
  let ?P = "same_signature f"
  let ?k = "length (takeWhile ?P fs)"
  have kle: "?k \<le> length fs" by (rule length_takeWhile_le)
  show ?case
  proof
    fix r assume "r \<in> set (maximal_runs i (Some f # fs))"
    then consider (hd) "r = \<lparr>start_row = i, end_row = i + ?k, pattern = normalize_formula f,
          first_formula = f, formula_count = Suc ?k, formulas = take 3 (f # map the (takeWhile ?P fs))\<rparr>"
      | (tl) "r \<in> set (maximal_runs (Suc (i + ?k)) (dropWhile ?P fs))"
      by auto
    then show "i \<le> start_row r \<and> start_row r \<le> end_row r \<and> end_row r < i + length (Some f # fs)
     \<and> (\<forall>m. start_row r \<le> m \<and> m \<le> end_row r \<longrightarrow> signature_of ((Some f # fs) ! (m - i)) = Some (pattern r))"
    proof cases
      case hd
      have "signature_of ((Some f # fs) ! (m - i)) = Some (normalize_formula f)"
        if "i \<le> m" "m \<le> i + ?k" for m
        using that by (intro run_elem) simp
      with hd kle show ?thesis by simp
    next
      case tl
      with 3 have a: "Suc (i + ?k) \<le> start_row r" "start_row r \<le> end_row r"
          "end_row r < Suc (i + ?k) + length (dropWhile ?P fs)"
        and b: "\<And>m. start_row r \<le> m \<Longrightarrow> m \<le> end_row r \<Longrightarrow>
                 signature_of (dropWhile ?P fs ! (m - Suc (i + ?k))) = Some (pattern r)"
        by auto
      have "signature_of ((Some f # fs) ! (m - i)) = Some (pattern r)"
        if "start_row r \<le> m" "m \<le> end_row r" for m
      proof -
        from that a have "Suc (i + ?k) \<le> m" by simp
        from rest_elem[OF this, of "Some f"] b[OF that] show ?thesis by simp
      qed
      with a length_rest[of i ?P fs "Some f"] show ?thesis by simp
    qed
  qed
qed


lemma run_stop:
  assumes "length (takeWhile (same_signature f) fs) < length fs"
  shows "signature_of ((Some f # fs) ! Suc (length (takeWhile (same_signature f) fs)))
         \<noteq> Some (normalize_formula f)"
  using nth_length_takeWhile[OF assms] by (simp add: same_signature_iff)

lemma runs_right_maximal:
  "\<forall>r\<in>set (maximal_runs i gs).
     Suc (end_row r) = i + length gs
     \<or> signature_of (gs ! (Suc (end_row r) - i)) \<noteq> Some (pattern r)"
proof (induction i gs rule: maximal_runs.induct)
  case (1 i)
  then show ?case by simp
next
  case (2 i fs)
  show ?case
  proof
    fix r assume "r \<in> set (maximal_runs i (None # fs))"
    then have r: "r \<in> set (maximal_runs (Suc i) fs)" by simp
    with runs_inside[of "Suc i" fs] have "Suc i \<le> end_row r" by fastforce
    then have "Suc (end_row r) - i = Suc (Suc (end_row r) - Suc i)" by simp
    with 2 r show "Suc (end_row r) = i + length (None # fs)
       \<or> signature_of ((None # fs) ! (Suc (end_row r) - i)) \<noteq> Some (pattern r)"
      by auto
  qed
next
  case (3 i f fs)
  let ?P = "same_signature f"
  let ?k = "length (takeWhile ?P fs)"
  have kle: "?k \<le> length fs" by (rule length_takeWhile_le)
  show ?case
  proof
    fix r assume "r \<in> set (maximal_runs i (Some f # fs))"
    then consider (hd) "r = \<lparr>start_row = i, end_row = i + ?k, pattern = normalize_formula f,
          first_formula = f, formula_count = Suc ?k, formulas = take 3 (f # map the (takeWhile ?P fs))\<rparr>"
      | (tl) "r \<in> set (maximal_runs (Suc (i + ?k)) (dropWhile ?P fs))"
      by auto
    then show "Suc (end_row r) = i + length (Some f # fs)
       \<or> signature_of ((Some f # fs) ! (Suc (end_row r) - i)) \<noteq> Some (pattern r)"
    proof cases
      case hd
      show ?thesis
      proof (cases "?k < length fs")
        case True
        from run_stop[OF this] hd show ?thesis by simp
      next
        case False
        with kle have "?k = length fs" by simp
        with hd show ?thesis by simp
      qed
    next
      case tl
      with runs_inside[of "Suc (i + ?k)" "dropWhile ?P fs"]
      have "Suc (i + ?k) \<le> end_row r" by fastforce
      then have le: "Suc (i + ?k) \<le> Suc (end_row r)" by simp
      from 3 tl have "Suc (end_row r) = Suc (i + ?k) + length (dropWhile ?P fs)
         \<or> signature_of (dropWhile ?P fs ! (Suc (end_row r) - Suc (i + ?k))) \<noteq> Some (pattern r)"
        by blast
      with rest_elem[OF le, of "Some f"] length_rest[of i ?P fs "Some f"] show ?thesis by auto
    qed
  qed
qed

lemma runs_first_start:
  assumes "r \<in> set (maximal_runs i gs)" "start_row r = i"
  shows "gs \<noteq> [] \<and> signature_of (hd gs) = Some (pattern r)"
proof -
  from assms(1) have ne: "gs \<noteq> []" by auto
  from runs_inside[of i gs] assms have "signature_of (gs ! (i - i)) = Some (pattern r)"
    by (metis order_refl)
  with ne show ?thesis by (simp add: hd_conv_nth)
qed

lemma runs_left_maximal:
  "\<forall>r\<in>set (maximal_runs i gs).
     start_row r = i
     \<or> (i < start_row r \<and> signature_of (gs ! (start_row r - Suc i)) \<noteq> Some (pattern r))"
proof (induction i gs rule: maximal_runs.induct)
  case (1 i)
  then show ?case by simp
next
  case (2 i fs)
  show ?case
  proof
    fix r assume "r \<in> set (maximal_runs i (None # fs))"
    then have r: "r \<in> set (maximal_runs (Suc i) fs)" by simp
    with 2 consider (a) "start_row r = Suc i"
      | (b) "Suc i < start_row r" "signature_of (fs ! (start_row r - Suc (Suc i))) \<noteq> Some (pattern r)"
      by blast
    then show "start_row r = i
       \<or> (i < start_row r \<and> signature_of ((None # fs) ! (start_row r - Suc i)) \<noteq> Some (pattern r))"
    proof cases
      case a
      then show ?thesis by (simp add: signature_of_def)
    next
      case b
      then have "start_row r - Suc i = Suc (start_row r - Suc (Suc i))" by simp
      with b show ?thesis by simp
    qed
  qed
next
  case (3 i f fs)
  let ?P = "same_signature f"
  let ?k = "length (takeWhile ?P fs)"
  have kle: "?k \<le> length fs" by (rule length_takeWhile_le)
  show ?case
  proof
    fix r assume "r \<in> set (maximal_runs i (Some f # fs))"
    then consider (hd) "r = \<lparr>start_row = i, end_row = i + ?k, pattern = normalize_formula f,
          first_formula = f, formula_count = Suc ?k, formulas = take 3 (f # map the (takeWhile ?P fs))\<rparr>"
      | (tl) "r \<in> set (maximal_runs (Suc (i + ?k)) (dropWhile ?P fs))"
      by auto
    then show "start_row r = i
       \<or> (i < start_row r \<and> signature_of ((Some f # fs) ! (start_row r - Suc i)) \<noteq> Some (pattern r))"
    proof cases
      case hd
      then show ?thesis by simp
    next
      case tl
      with 3 consider (a) "start_row r = Suc (i + ?k)"
        | (b) "Suc (i + ?k) < start_row r"
              "signature_of (dropWhile ?P fs ! (start_row r - Suc (Suc (i + ?k)))) \<noteq> Some (pattern r)"
        by blast
      then show ?thesis
      proof cases
        case a
        from runs_first_start[OF tl a] have ne: "dropWhile ?P fs \<noteq> []"
          and sg: "signature_of (hd (dropWhile ?P fs)) = Some (pattern r)" by simp_all
        from ne have "\<not> ?P (hd (dropWhile ?P fs))" by (rule hd_dropWhile)
        with sg have "pattern r \<noteq> normalize_formula f" by (auto simp: same_signature_iff)
        moreover have "signature_of ((Some f # fs) ! ?k) = Some (normalize_formula f)"
          by (rule run_elem) simp
        ultimately show ?thesis using a by simp
      next
        case b
        then have le: "Suc (i + ?k) \<le> start_row r - 1" by simp
        have "start_row r - 1 - i = start_row r - Suc i" by simp
        moreover have "start_row r - 1 - Suc (i + ?k) = start_row r - Suc (Suc (i + ?k))" by simp
        ultimately show ?thesis using rest_elem[OF le, of "Some f"] b by auto
      qed
    qed
  qed
qed

lemma runs_cover:
  "\<forall>m<length gs. gs ! m \<noteq> None \<longrightarrow>
     (\<exists>r\<in>set (maximal_runs i gs). start_row r \<le> i + m \<and> i + m \<le> end_row r)"
proof (induction i gs rule: maximal_runs.induct)
  case (1 i)
  then show ?case by simp
next
  case (2 i fs)
  show ?case
  proof (intro allI impI)
    fix m assume m: "m < length (None # fs)" "(None # fs) ! m \<noteq> None"
    then obtain m' where m': "m = Suc m'" by (cases m) auto
    with m 2 obtain r where "r \<in> set (maximal_runs (Suc i) fs)"
      "start_row r \<le> Suc i + m'" "Suc i + m' \<le> end_row r" by auto
    with m' show "\<exists>r\<in>set (maximal_runs i (None # fs)). start_row r \<le> i + m \<and> i + m \<le> end_row r"
      by auto
  qed
next
  case (3 i f fs)
  let ?P = "same_signature f"
  let ?k = "length (takeWhile ?P fs)"
  have kle: "?k \<le> length fs" by (rule length_takeWhile_le)
  show ?case
  proof (intro allI impI)
    fix m assume m: "m < length (Some f # fs)" "(Some f # fs) ! m \<noteq> None"
    show "\<exists>r\<in>set (maximal_runs i (Some f # fs)). start_row r \<le> i + m \<and> i + m \<le> end_row r"
    proof (cases "m \<le> ?k")
      case True
      then show ?thesis by simp
    next
      case False
      define j where "j = m - Suc ?k"
      have mj: "m = Suc (?k + j)" using False by (simp add: j_def)
      have "length (dropWhile ?P fs) = length fs - ?k" by (simp add: dropWhile_eq_drop)
      with m mj have jl: "j < length (dropWhile ?P fs)" by simp
      have "dropWhile ?P fs ! j = fs ! (?k + j)" using kle by (simp add: dropWhile_eq_drop)
      with m mj have "dropWhile ?P fs ! j \<noteq> None" by simp
      with 3 jl obtain r where r: "r \<in> set (maximal_runs (Suc (i + ?k)) (dropWhile ?P fs))"
        "start_row r \<le> Suc (i + ?k) + j" "Suc (i + ?k) + j \<le> end_row r" by blast
      have im: "i + m = Suc (i + ?k) + j" using mj by simp
      from r(1) have "r \<in> set (maximal_runs i (Some f # fs))" by simp
      with r(2,3) show ?thesis unfolding im by blast
    qed
  qed
qed


lemma formulas_nth:
  "s \<le> m \<Longrightarrow> m < n \<Longrightarrow> map (row_formula row_data col_idx) [s..<n] ! (m - s)
     = row_formula row_data col_idx m"
  by simp

lemma ranges_are_runs:
  assumes "r \<in> set (analyze_formula_ranges row_data col_idx s)"
  shows "s \<le> start_row r \<and> start_row r \<le> end_row r \<and> end_row r < length row_data
    \<and> (\<forall>m. start_row r \<le> m \<and> m \<le> end_row r \<longrightarrow> row_signature row_data col_idx m = Some (pattern r))
    \<and> (start_row r = s \<or> row_signature row_data col_idx (start_row r - 1) \<noteq> Some (pattern r))
    \<and> (Suc (end_row r) = length row_data
        \<or> row_signature row_data col_idx (Suc (end_row r)) \<noteq> Some (pattern r))"
proof -
  let ?n = "length row_data"
  let ?gs = "map (row_formula row_data col_idx) [s..<?n]"
  from assms have r: "r \<in> set (maximal_runs s ?gs)" by (simp add: analyze_formula_ranges_runs)
  from runs_inside[of s ?gs] r have a: "s \<le> start_row r" "start_row r \<le> end_row r"
      "end_row r < s + length ?gs"
    and b: "\<And>m. start_row r \<le> m \<Longrightarrow> m \<le> end_row r \<Longrightarrow> signature_of (?gs ! (m - s)) = Some (pattern r)"
    by auto
  from a have en: "end_row r < ?n" by simp
  have inside: "row_signature row_data col_idx m = Some (pattern r)"
    if "start_row r \<le> m" "m \<le> end_row r" for m
  proof -
    from that a en have "s \<le> m" "m < ?n" by simp_all
    from formulas_nth[OF this] b[OF that] show ?thesis by (simp add: row_signature_def)
  qed
  have left: "start_row r = s \<or> row_signature row_data col_idx (start_row r - 1) \<noteq> Some (pattern r)"
  proof (cases "start_row r = s")
    case True
    then show ?thesis by simp
  next
    case False
    with runs_left_maximal[of s ?gs] r have lt: "s < start_row r"
      and ne: "signature_of (?gs ! (start_row r - Suc s)) \<noteq> Some (pattern r)" by auto
    from lt a en have "s \<le> start_row r - 1" "start_row r - 1 < ?n" by simp_all
    from formulas_nth[OF this] ne show ?thesis by (simp add: row_signature_def)
  qed
  have right: "Suc (end_row r) = ?n \<or> row_signature row_data col_idx (Suc (end_row r)) \<noteq> Some (pattern r)"
  proof (cases "Suc (end_row r) = ?n")
    case True
    then show ?thesis by simp
  next
    case False
    with en have lt: "Suc (end_row r) < ?n" by simp
    from a have "Suc (end_row r) \<noteq> s + length ?gs" using False by simp
    with runs_right_maximal[of s ?gs] r
    have ne: "signature_of (?gs ! (Suc (end_row r) - s)) \<noteq> Some (pattern r)" by auto
    from a have "s \<le> Suc (end_row r)" by simp
    from formulas_nth[OF this lt] ne show ?thesis by (simp add: row_signature_def)
  qed
  from a en inside left right show ?thesis by blast
qed

lemma formula_rows_covered:
  assumes "s \<le> m" "m < length row_data" "row_formula row_data col_idx m \<noteq> None"
  shows "\<exists>r\<in>set (analyze_formula_ranges row_data col_idx s). start_row r \<le> m \<and> m \<le> end_row r"
proof -
  let ?gs = "map (row_formula row_data col_idx) [s..<length row_data]"
  have "m - s < length ?gs" using assms by simp
  moreover have "?gs ! (m - s) \<noteq> None" using formulas_nth[OF assms(1,2)] assms(3) by simp
  ultimately obtain r where "r \<in> set (maximal_runs s ?gs)"
    "start_row r \<le> s + (m - s)" "s + (m - s) \<le> end_row r"
    using runs_cover[of ?gs s] by blast
  with assms(1) show ?thesis by (auto simp: analyze_formula_ranges_runs)
qed

text \<open>
  C6. The ranges returned for a column are the maximal runs of consecutive rows, from
  \<open>start_row\<close> to the last row, whose formulas have one signature, in scan order: the
  list is the one obtained by cutting the rows' formulas into the longest stretches of one
  signature; every range lies in the scanned rows and all its rows have its signature; the
  row before it and the row after it, when scanned, have not; and every scanned row with a
  formula lies in a range. A row without a cell in the column counts as a row without a
  formula. One step of the scan extends the open range on the same signature, closes it and
  opens a new one on another signature, and closes it on a row without a formula.
\<close>

theorem analyze_formula_ranges_maximal_runs:
  "analyze_formula_ranges row_data col_idx s
     = maximal_runs s (map (row_formula row_data col_idx) [s..<length row_data])
   \<and> scan_row row_data col_idx i (ranges, cur)
     = (case row_formula row_data col_idx i of
          None \<Rightarrow> (case cur of None \<Rightarrow> (ranges, None) | Some r \<Rightarrow> (ranges @ [r], None))
        | Some f \<Rightarrow>
            (case cur of
               None \<Rightarrow> (ranges, Some (new_range i f))
             | Some r \<Rightarrow>
                 if pattern r = normalize_formula f then (ranges, Some (extend_range r i f))
                 else (ranges @ [r], Some (new_range i f))))
   \<and> (\<forall>r\<in>set (analyze_formula_ranges row_data col_idx s).
         s \<le> start_row r \<and> end_row r < length row_data
         \<and> (\<forall>m. start_row r \<le> m \<and> m \<le> end_row r \<longrightarrow>
               row_signature row_data col_idx m = Some (pattern r))
         \<and> (start_row r = s
            \<or> row_signature row_data col_idx (start_row r - 1) \<noteq> Some (pattern r))
         \<and> (Suc (end_row r) = length row_data
            \<or> row_signature row_data col_idx (Suc (end_row r)) \<noteq> Some (pattern r)))
   \<and> (\<forall>m. s \<le> m \<and> m < length row_data \<and> row_formula row_data col_idx m \<noteq> None \<longrightarrow>
         (\<exists>r\<in>set (analyze_formula_ranges row_data col_idx s).
            start_row r \<le> m \<and> m \<le> end_row r))"
proof -
  have step: "scan_row row_data col_idx i (ranges, cur)
     = (case row_formula row_data col_idx i of
          None \<Rightarrow> (case cur of None \<Rightarrow> (ranges, None) | Some r \<Rightarrow> (ranges @ [r], None))
        | Some f \<Rightarrow>
            (case cur of
               None \<Rightarrow> (ranges, Some (new_range i f))
             | Some r \<Rightarrow>
                 if pattern r = normalize_formula f then (ranges, Some (extend_range r i f))
                 else (ranges @ [r], Some (new_range i f))))"
    by (simp add: scan_row_eq close_range_def formula_step_def split: option.splits)
  from analyze_formula_ranges_runs[of row_data col_idx s] step
    ranges_are_runs[of _ row_data col_idx s] formula_rows_covered[of s _ row_data col_idx]
  show ?thesis by blast
qed


theorem analyze_formula_ranges_maximal_runs_witness:
  "maximal_runs 0
     (map (row_formula
             [formula_cell ''=A1*2'', formula_cell ''=A2*2'', formula_cell ''=A3*2'',
              formula_cell ''=A4*2'', formula_cell ''=A5*2'', plain_cell,
              formula_cell ''=SUM(B7:C7)'', formula_cell ''=SUM(B8:C8)''] 0)
        [0..<8])
   = [\<lparr>start_row = 0, end_row = 4, pattern = ''={REL}*2'', first_formula = ''=A1*2'',
       formula_count = 5, formulas = [''=A1*2'', ''=A2*2'', ''=A3*2'']\<rparr>,
      \<lparr>start_row = 6, end_row = 7, pattern = ''=SUM({REL}:{REL})'',
       first_formula = ''=SUM(B7:C7)'', formula_count = 2,
       formulas = [''=SUM(B7:C7)'', ''=SUM(B8:C8)'']\<rparr>]
   \<and> row_signature
        [formula_cell ''=A1*2'', formula_cell ''=A2*2'', formula_cell ''=A3*2'',
         formula_cell ''=A4*2'', formula_cell ''=A5*2'', plain_cell,
         formula_cell ''=SUM(B7:C7)'', formula_cell ''=SUM(B8:C8)''] 0 3
       = Some ''={REL}*2''
   \<and> row_signature
        [formula_cell ''=A1*2'', formula_cell ''=A2*2'', formula_cell ''=A3*2'',
         formula_cell ''=A4*2'', formula_cell ''=A5*2'', plain_cell,
         formula_cell ''=SUM(B7:C7)'', formula_cell ''=SUM(B8:C8)''] 0 5
       \<noteq> Some ''={REL}*2''
   \<and> row_signature
        [formula_cell ''=A1*2'', formula_cell ''=A2*2'', formula_cell ''=A3*2'',
         formula_cell ''=A4*2'', formula_cell ''=A5*2'', plain_cell,
         formula_cell ''=SUM(B7:C7)'', formula_cell ''=SUM(B8:C8)''] 0 5
       \<noteq> Some ''=SUM({REL}:{REL})''"
proof -
  let ?rows = "[formula_cell ''=A1*2'', formula_cell ''=A2*2'', formula_cell ''=A3*2'',
      formula_cell ''=A4*2'', formula_cell ''=A5*2'', plain_cell,
      formula_cell ''=SUM(B7:C7)'', formula_cell ''=SUM(B8:C8)'']"
  let ?r1 = "\<lparr>start_row = 0, end_row = 4, pattern = ''={REL}*2'', first_formula = ''=A1*2'',
       formula_count = 5, formulas = [''=A1*2'', ''=A2*2'', ''=A3*2'']\<rparr>"
  let ?r2 = "\<lparr>start_row = 6, end_row = 7, pattern = ''=SUM({REL}:{REL})'',
       first_formula = ''=SUM(B7:C7)'', formula_count = 2,
       formulas = [''=SUM(B7:C7)'', ''=SUM(B8:C8)'']\<rparr>"
  have run: "analyze_formula_ranges ?rows 0 0 = [?r1, ?r2]" by code_simp
  have len: "length ?rows = 8" by simp
  note inst = analyze_formula_ranges_maximal_runs[of ?rows 0 0 0 "[]" None]
  from inst have "analyze_formula_ranges ?rows 0 0
        = maximal_runs 0 (map (row_formula ?rows 0) [0..<length ?rows])"
    by (rule conjunct1)
  then have "maximal_runs 0 (map (row_formula ?rows 0) [0..<length ?rows])
             = analyze_formula_ranges ?rows 0 0"
    by (rule sym)
  also note run
  finally have e: "maximal_runs 0 (map (row_formula ?rows 0) [0..<length ?rows]) = [?r1, ?r2]" .
  from inst have all: "\<forall>r\<in>set (analyze_formula_ranges ?rows 0 0).
         0 \<le> start_row r \<and> end_row r < length ?rows
         \<and> (\<forall>m. start_row r \<le> m \<and> m \<le> end_row r \<longrightarrow>
               row_signature ?rows 0 m = Some (pattern r))
         \<and> (start_row r = 0
            \<or> row_signature ?rows 0 (start_row r - 1) \<noteq> Some (pattern r))
         \<and> (Suc (end_row r) = length ?rows
            \<or> row_signature ?rows 0 (Suc (end_row r)) \<noteq> Some (pattern r))"
    by blast
  have m1: "?r1 \<in> set (analyze_formula_ranges ?rows 0 0)"
    and m2: "?r2 \<in> set (analyze_formula_ranges ?rows 0 0)"
    unfolding run by simp_all
  from bspec[OF all m1] have "\<forall>m. start_row ?r1 \<le> m \<and> m \<le> end_row ?r1 \<longrightarrow>
               row_signature ?rows 0 m = Some (pattern ?r1)"
    and "Suc (end_row ?r1) = length ?rows
            \<or> row_signature ?rows 0 (Suc (end_row ?r1)) \<noteq> Some (pattern ?r1)"
    by blast+
  then have f1: "row_signature ?rows 0 3 = Some ''={REL}*2''"
    and f2: "row_signature ?rows 0 5 \<noteq> Some ''={REL}*2''"
    by simp_all
  from bspec[OF all m2] have "start_row ?r2 = 0
            \<or> row_signature ?rows 0 (start_row ?r2 - 1) \<noteq> Some (pattern ?r2)"
    by blast
  then have f3: "row_signature ?rows 0 5 \<noteq> Some ''=SUM({REL}:{REL})''" by simp
  from e[unfolded len] f1 f2 f3 show ?thesis by blast
qed

text \<open>
  C9. Every returned range starts no later than it ends, counts at least one formula, keeps
  \<open>min(formula_count, 3)\<close> example formulas of which the first is \<open>first_formula\<close>; and
  of two returned ranges the earlier one ends before the later one starts.
\<close>

theorem formula_ranges_invariant:
  "(\<forall>r\<in>set (analyze_formula_ranges row_data col_idx s).
      start_row r \<le> end_row r \<and> 1 \<le> formula_count r
      \<and> length (formulas r) = min (formula_count r) 3 \<and> formulas r ! 0 = first_formula r)
   \<and> (\<forall>i j. i < j \<and> j < length (analyze_formula_ranges row_data col_idx s) \<longrightarrow>
         end_row (analyze_formula_ranges row_data col_idx s ! i)
         < start_row (analyze_formula_ranges row_data col_idx s ! j))"
  unfolding analyze_formula_ranges_runs
  using maximal_runs_props[of s "map (row_formula row_data col_idx) [s..<length row_data]"]
    maximal_runs_ordered[of s "map (row_formula row_data col_idx) [s..<length row_data]"]
  by (auto simp: sorted_wrt_iff_nth_less)

theorem formula_ranges_invariant_witness:
  "analyze_formula_ranges
     [formula_cell ''=A1*2'', formula_cell ''=A2*2'', formula_cell ''=A3*2'',
      formula_cell ''=A4*2'', formula_cell ''=A5*2'', plain_cell,
      formula_cell ''=SUM(B7:C7)'', formula_cell ''=SUM(B8:C8)''] 0 0
   = [\<lparr>start_row = 0, end_row = 4, pattern = ''={REL}*2'', first_formula = ''=A1*2'',
       formula_count = 5, formulas = [''=A1*2'', ''=A2*2'', ''=A3*2'']\<rparr>,
      \<lparr>start_row = 6, end_row = 7, pattern = ''=SUM({REL}:{REL})'',
       first_formula = ''=SUM(B7:C7)'', formula_count = 2,
       formulas = [''=SUM(B7:C7)'', ''=SUM(B8:C8)'']\<rparr>]
   \<and> (0::nat) \<le> 4 \<and> (1::nat) \<le> 5
   \<and> length [''=A1*2'', ''=A2*2'', ''=A3*2''] = min (5::nat) 3
   \<and> [''=A1*2'', ''=A2*2'', ''=A3*2''] ! 0 = ''=A1*2''
   \<and> (4::nat) < 6"
proof -
  let ?rows = "[formula_cell ''=A1*2'', formula_cell ''=A2*2'', formula_cell ''=A3*2'',
      formula_cell ''=A4*2'', formula_cell ''=A5*2'', plain_cell,
      formula_cell ''=SUM(B7:C7)'', formula_cell ''=SUM(B8:C8)'']"
  let ?r1 = "\<lparr>start_row = 0, end_row = 4, pattern = ''={REL}*2'', first_formula = ''=A1*2'',
       formula_count = 5, formulas = [''=A1*2'', ''=A2*2'', ''=A3*2'']\<rparr>"
  let ?r2 = "\<lparr>start_row = 6, end_row = 7, pattern = ''=SUM({REL}:{REL})'',
       first_formula = ''=SUM(B7:C7)'', formula_count = 2,
       formulas = [''=SUM(B7:C7)'', ''=SUM(B8:C8)'']\<rparr>"
  have run: "analyze_formula_ranges ?rows 0 0 = [?r1, ?r2]" by code_simp
  from formula_ranges_invariant[of ?rows 0 0]
  have all: "\<forall>r\<in>set [?r1, ?r2]. start_row r \<le> end_row r \<and> 1 \<le> formula_count r
      \<and> length (formulas r) = min (formula_count r) 3 \<and> formulas r ! 0 = first_formula r"
    and ord: "\<forall>i j. i < j \<and> j < length [?r1, ?r2] \<longrightarrow>
                end_row ([?r1, ?r2] ! i) < start_row ([?r1, ?r2] ! j)"
    unfolding run by blast+
  from all have "start_row ?r1 \<le> end_row ?r1 \<and> 1 \<le> formula_count ?r1
      \<and> length (formulas ?r1) = min (formula_count ?r1) 3 \<and> formulas ?r1 ! 0 = first_formula ?r1"
    by simp
  moreover from ord[rule_format, of 0 1]
  have "end_row ([?r1, ?r2] ! 0) < start_row ([?r1, ?r2] ! 1)" by simp
  ultimately show ?thesis using run by simp
qed

end
